theory Spec2Isabelle
  imports Main "HOL-Library.List_Lexorder"
begin

section \<open>Strings\<close>

text \<open>
  A Go string is modelled as the sequence of code points that \<^verbatim>\<open>for _, r := range s\<close>
  reads from it (well-formed UTF-8 text). The bytes the parser compares against
  (\<^verbatim>\<open>'['\<close>, \<^verbatim>\<open>']'\<close>, \<^verbatim>\<open>'|'\<close>, newline) are ASCII, and an ASCII byte never occurs inside the
  encoding of another code point, so a scan over bytes for them is a scan over code points.
\<close>

type_synonym rune = nat
type_synonym gostring = "rune list"

definition gostr :: "string \<Rightarrow> gostring" where
  "gostr cs = map of_char cs"

text \<open>\<^verbatim>\<open>len(s)\<close> counts bytes: the UTF-8 width of every code point.\<close>

definition RuneLen :: "rune \<Rightarrow> nat" where
  "RuneLen r = (if r < 128 then 1 else if r < 2048 then 2 else if r < 65536 then 3 else 4)"

definition len :: "gostring \<Rightarrow> nat" where
  "len s = sum_list (map RuneLen s)"

text \<open>
  The Unicode tables of the libraries \<^verbatim>\<open>golang.org/x/text/unicode/norm\<close> and \<^verbatim>\<open>unicode\<close> are not
  part of the repository; they are parameters of the model: the NFKD normal form of a string,
  the lower-case mapping outside ASCII, and membership in the category Mn.
\<close>

record unicode_tables =
  NFKD :: "gostring \<Rightarrow> gostring"
  ToLowerTab :: "rune \<Rightarrow> rune"
  IsMn :: "rune \<Rightarrow> bool"

text \<open>What is known of NFKD here: text that is entirely ASCII is already normalised.\<close>

definition nfkd_ascii :: "unicode_tables \<Rightarrow> bool" where
  "nfkd_ascii U = (\<forall>s. (\<forall>r \<in> set s. r < 128) \<longrightarrow> NFKD U s = s)"

text \<open>Tables that leave every string alone; they agree with Unicode on ASCII text.\<close>

definition ascii_tables :: unicode_tables where
  "ascii_tables = \<lparr> NFKD = (\<lambda>s. s), ToLowerTab = (\<lambda>r. r), IsMn = (\<lambda>r. False) \<rparr>"

text \<open>\<^verbatim>\<open>strings.ToLower\<close>: \<^verbatim>\<open>unicode.ToLower\<close> on every code point; on ASCII it is A-Z to a-z.\<close>

definition ToLowerRune :: "unicode_tables \<Rightarrow> rune \<Rightarrow> rune" where
  "ToLowerRune U r =
     (if r < 128 then (if 65 \<le> r \<and> r \<le> 90 then r + 32 else r) else ToLowerTab U r)"

definition ToLower :: "unicode_tables \<Rightarrow> gostring \<Rightarrow> gostring" where
  "ToLower U s = map (ToLowerRune U) s"

text \<open>\<^verbatim>\<open>strings.ReplaceAll(s, old, new)\<close> for the one-character patterns the source uses.\<close>

definition ReplaceAll :: "gostring \<Rightarrow> rune \<Rightarrow> rune \<Rightarrow> gostring" where
  "ReplaceAll s old new = map (\<lambda>r. if r = old then new else r) s"

text \<open>\<^verbatim>\<open>strings.Trim(s, cutset)\<close>: leading and trailing code points of the cutset removed.\<close>

definition Trim :: "gostring \<Rightarrow> gostring \<Rightarrow> gostring" where
  "Trim s cutset =
     rev (dropWhile (\<lambda>r. r \<in> set cutset) (rev (dropWhile (\<lambda>r. r \<in> set cutset) s)))"

section \<open>Slugify (internal/database/pages.go)\<close>

definition is_slug_rune :: "rune \<Rightarrow> bool" where
  "is_slug_rune r = ((97 \<le> r \<and> r \<le> 122) \<or> (48 \<le> r \<and> r \<le> 57) \<or> r = 45)"

text \<open>The loop over the runes: a-z, 0-9 and the hyphen are written, a combining mark is
  skipped, and anything else is not written either.\<close>

fun slug_runes :: "unicode_tables \<Rightarrow> gostring \<Rightarrow> gostring" where
  "slug_runes U [] = []"
| "slug_runes U (r # rs) =
     (if (97 \<le> r \<and> r \<le> 122) \<or> (48 \<le> r \<and> r \<le> 57) \<or> r = 45 then r # slug_runes U rs
      else if IsMn U r then slug_runes U rs
      else slug_runes U rs)"

text \<open>The regular expression \<^verbatim>\<open>-+\<close> replaced by one hyphen: every run of hyphens collapses.\<close>

fun collapse_hyphens :: "gostring \<Rightarrow> gostring" where
  "collapse_hyphens (a # b # rs) =
     (if a = 45 \<and> b = 45 then collapse_hyphens (b # rs) else a # collapse_hyphens (b # rs))"
| "collapse_hyphens rs = rs"

definition Slugify :: "unicode_tables \<Rightarrow> gostring \<Rightarrow> gostring" where
  "Slugify U title =
     (let s = NFKD U title;
          s = ToLower U s;
          s = ReplaceAll s 32 45;
          s = ReplaceAll s 95 45;
          s = slug_runes U s;
          s = collapse_hyphens s;
          s = Trim s [45]
      in s)"

text \<open>No two hyphens side by side.\<close>

fun no_hyphen_run :: "gostring \<Rightarrow> bool" where
  "no_hyphen_run (a # b # rs) = (\<not> (a = 45 \<and> b = 45) \<and> no_hyphen_run (b # rs))"
| "no_hyphen_run rs = True"

section \<open>The wiki-link parser (package wikilink)\<close>

text \<open>\<^verbatim>\<open>unicode.IsSpace\<close>: the white-space code points of Latin-1 and the ones of the
  category White_Space beyond it.\<close>

definition IsSpace :: "rune \<Rightarrow> bool" where
  "IsSpace r =
     (r = 9 \<or> r = 10 \<or> r = 11 \<or> r = 12 \<or> r = 13 \<or> r = 32 \<or> r = 133 \<or> r = 160 \<or>
      r = 5760 \<or> (8192 \<le> r \<and> r \<le> 8202) \<or> r = 8232 \<or> r = 8233 \<or> r = 8239 \<or>
      r = 8287 \<or> r = 12288)"

definition TrimSpace :: "gostring \<Rightarrow> gostring" where
  "TrimSpace s = rev (dropWhile IsSpace (rev (dropWhile IsSpace s)))"

text \<open>\<^verbatim>\<open>strings.Index(s, c)\<close> for a one-character pattern; \<open>None\<close> stands for -1.\<close>

fun Index :: "gostring \<Rightarrow> rune \<Rightarrow> nat option" where
  "Index [] c = None"
| "Index (r # rs) c = (if r = c then Some 0 else map_option Suc (Index rs c))"

record WikiLink =
  Target :: gostring
  DisplayText :: gostring

definition NewWikiLink :: "gostring \<Rightarrow> gostring \<Rightarrow> WikiLink" where
  "NewWikiLink target displayText = \<lparr> Target = target, DisplayText = displayText \<rparr>"

text \<open>The loop that looks for the closing brackets, started at \<open>i = 2\<close> on the line without
  its first two characters: it stops at the first \<^verbatim>\<open>]]\<close>, gives up at a newline, and runs while
  \<open>i < len(line) - 1\<close>, that is while two characters are left.\<close>

datatype scan = Found nat | Newline | NoClose

fun find_close :: "gostring \<Rightarrow> nat \<Rightarrow> scan" where
  "find_close (a # b # rest) i =
     (if a = 93 \<and> b = 93 then Found i
      else if a = 10 then Newline
      else find_close (b # rest) (Suc i))"
| "find_close rest i = NoClose"

text \<open>\<open>Parse\<close> on what \<^verbatim>\<open>block.PeekLine()\<close> returns: \<open>line\<close>, the unread rest of the line, and
  \<open>start\<close>, the field \<^verbatim>\<open>segment.Start\<close>, which is the offset of the first byte of \<open>line\<close> in the
  source. The result is the node and the count that the source hands to \<^verbatim>\<open>block.Advance\<close>,
  which is \<^verbatim>\<open>segment.Start + end + 2\<close>; \<open>None\<close> is the nil node, with the reader left where it
  was. \<open>end\<close> is a byte index, so \<open>end + 2\<close> is the length in bytes of the line up to and
  including the closing brackets.\<close>

definition Parse :: "unicode_tables \<Rightarrow> gostring \<Rightarrow> nat \<Rightarrow> (WikiLink \<times> nat) option" where
  "Parse U line start =
     (if len line < 4 then None
      else case line of
        a # b # rest \<Rightarrow>
          if a \<noteq> 91 \<or> b \<noteq> 91 then None
          else (case find_close rest 2 of
              NoClose \<Rightarrow> None
            | Newline \<Rightarrow> None
            | Found e \<Rightarrow>
                let content = take (e - 2) rest in
                if content = [] then None
                else
                  let (target, displayText) =
                        (case Index content 124 of
                           Some idx \<Rightarrow> (TrimSpace (take idx content),
                                         TrimSpace (drop (Suc idx) content))
                         | None \<Rightarrow> (TrimSpace content, TrimSpace content))
                  in if target = [] then None
                     else let slug = Slugify U target
                          in if slug = [] then None
                             else Some (NewWikiLink slug displayText,
                                        start + len (take (e + 2) line)))
      | _ \<Rightarrow> None)"

text \<open>The wording of the specification, for comparison with \<open>Parse\<close>: the text between the
  delimiters is split at the first \<^verbatim>\<open>|\<close>; both sides are trimmed; the left side is the reference
  title and the right side the display text, which defaults to the trimmed title; there is no
  link when the title or its slug is empty.\<close>

definition wikilink_spec :: "unicode_tables \<Rightarrow> gostring \<Rightarrow> WikiLink option" where
  "wikilink_spec U content =
     (let title = TrimSpace (takeWhile (\<lambda>r. r \<noteq> 124) content);
          display = (if 124 \<in> set content
                     then TrimSpace (tl (dropWhile (\<lambda>r. r \<noteq> 124) content))
                     else title)
      in if title = [] \<or> Slugify U title = [] then None
         else Some \<lparr> Target = Slugify U title, DisplayText = display \<rparr>)"

text \<open>A \<^verbatim>\<open>]]\<close> somewhere in the text.\<close>

fun has_close :: "gostring \<Rightarrow> bool" where
  "has_close (a # b # rs) = ((a = 93 \<and> b = 93) \<or> has_close (b # rs))"
| "has_close rs = False"

section \<open>The page store (package database)\<close>

text \<open>
  The tables are lists of rows in the order of insertion. Instants of time are natural
  numbers; the clock (\<^verbatim>\<open>time.Now()\<close>, \<^verbatim>\<open>CURRENT_TIMESTAMP\<close>) is an argument of every operation
  that reads it. Identifiers are the integers SQLite hands out.
\<close>

type_synonym time = nat

record Page =
  ID :: int
  Slug :: gostring
  Title :: gostring
  IsPhantom :: bool
  FirstCitedByUserID :: "int option"
  FirstCitedInPageID :: "int option"
  DeletedAt :: "time option"
  CreatedAt :: time
  UpdatedAt :: time

record Revision =
  RevID :: int
  PageID :: int
  Content :: gostring
  AuthorID :: int
  RevCreatedAt :: time
  AuthorUsername :: gostring

text \<open>Of a user only the columns that the queries on pages and revisions read.\<close>

record User =
  UserID :: int
  Username :: gostring

text \<open>The database: the tables \<^verbatim>\<open>users\<close>, \<^verbatim>\<open>pages\<close>, \<^verbatim>\<open>revisions\<close>, the full-text table
  \<^verbatim>\<open>pages_fts\<close> with its rows \<open>(rowid, title, content)\<close>, and the two AUTOINCREMENT counters.\<close>

record DB =
  users :: "User list"
  pages :: "Page list"
  revisions :: "Revision list"
  pages_fts :: "(int \<times> gostring \<times> gostring) list"
  pages_seq :: int
  revisions_seq :: int

datatype error = ErrNotFound | ErrPageExists | ErrConstraint

text \<open>AUTOINCREMENT: one more than the largest rowid ever used in the table.\<close>

definition next_rowid :: "int list \<Rightarrow> int \<Rightarrow> int" where
  "next_rowid ids seq = fold max ids seq + 1"

subsection \<open>The SQL statements\<close>

text \<open>\<^verbatim>\<open>INSERT INTO pages\<close>. The schema makes \<^verbatim>\<open>slug\<close> UNIQUE and lets the two citation columns
  reference \<^verbatim>\<open>users(id)\<close> and \<^verbatim>\<open>pages(id)\<close>; the connection is opened with foreign keys on.\<close>

definition insert_page ::
  "DB \<Rightarrow> gostring \<Rightarrow> gostring \<Rightarrow> bool \<Rightarrow> int option \<Rightarrow> int option \<Rightarrow> time \<Rightarrow> error + (int \<times> DB)" where
  "insert_page db slug title phantom by_user in_page now =
     (if slug \<in> set (map Slug (pages db)) then Inl ErrConstraint
      else if (case by_user of Some u \<Rightarrow> u \<notin> set (map UserID (users db)) | None \<Rightarrow> False)
        then Inl ErrConstraint
      else if (case in_page of Some p \<Rightarrow> p \<notin> set (map ID (pages db)) | None \<Rightarrow> False)
        then Inl ErrConstraint
      else
        let i = next_rowid (map ID (pages db)) (pages_seq db)
        in Inr (i, db\<lparr>pages := pages db @
                   [\<lparr>ID = i, Slug = slug, Title = title, IsPhantom = phantom,
                     FirstCitedByUserID = by_user, FirstCitedInPageID = in_page,
                     DeletedAt = None, CreatedAt = now, UpdatedAt = now\<rparr>],
                 pages_seq := i\<rparr>))"

text \<open>\<^verbatim>\<open>INSERT INTO revisions\<close>: \<^verbatim>\<open>page_id\<close> references \<^verbatim>\<open>pages(id)\<close> and \<^verbatim>\<open>author_id\<close> \<^verbatim>\<open>users(id)\<close>.\<close>

definition insert_revision :: "DB \<Rightarrow> int \<Rightarrow> gostring \<Rightarrow> int \<Rightarrow> time \<Rightarrow> error + DB" where
  "insert_revision db page_id content author now =
     (if page_id \<notin> set (map ID (pages db)) \<or> author \<notin> set (map UserID (users db))
      then Inl ErrConstraint
      else
        let i = next_rowid (map RevID (revisions db)) (revisions_seq db)
        in Inr (db\<lparr>revisions := revisions db @
                   [\<lparr>RevID = i, PageID = page_id, Content = content, AuthorID = author,
                     RevCreatedAt = now, AuthorUsername = []\<rparr>],
                 revisions_seq := i\<rparr>))"

text \<open>\<^verbatim>\<open>INSERT INTO pages_fts (rowid, title, content)\<close>: the rowid is the key of the table, and
  a second row with the same rowid is refused (which is why \<open>UpdatePage\<close> deletes first).\<close>

definition fts_insert :: "DB \<Rightarrow> int \<Rightarrow> gostring \<Rightarrow> gostring \<Rightarrow> error + DB" where
  "fts_insert db rowid title content =
     (if rowid \<in> set (map fst (pages_fts db)) then Inl ErrConstraint
      else Inr (db\<lparr>pages_fts := pages_fts db @ [(rowid, title, content)]\<rparr>))"

text \<open>\<^verbatim>\<open>DELETE FROM pages_fts WHERE rowid = ?\<close>\<close>

definition fts_delete :: "DB \<Rightarrow> int \<Rightarrow> DB" where
  "fts_delete db rowid = db\<lparr>pages_fts := filter (\<lambda>row. fst row \<noteq> rowid) (pages_fts db)\<rparr>"

text \<open>\<^verbatim>\<open>UPDATE pages SET ... WHERE ...\<close>\<close>

definition update_pages :: "DB \<Rightarrow> (Page \<Rightarrow> bool) \<Rightarrow> (Page \<Rightarrow> Page) \<Rightarrow> DB" where
  "update_pages db cond f = db\<lparr>pages := map (\<lambda>p. if cond p then f p else p) (pages db)\<rparr>"

text \<open>\<^verbatim>\<open>SELECT ... FROM pages WHERE slug = ?\<close> and \<^verbatim>\<open>WHERE id = ?\<close>: the first row found.\<close>

definition page_by_slug :: "DB \<Rightarrow> gostring \<Rightarrow> Page option" where
  "page_by_slug db slug = find (\<lambda>p. Slug p = slug) (pages db)"

definition page_by_id :: "DB \<Rightarrow> int \<Rightarrow> Page option" where
  "page_by_id db i = find (\<lambda>p. ID p = i) (pages db)"

text \<open>\<^verbatim>\<open>ORDER BY created_at DESC LIMIT 1\<close>. The query names no second key, so which of several
  rows with the same latest \<^verbatim>\<open>created_at\<close> comes first is the storage engine's choice; that
  choice is the parameter \<open>pick\<close>, of which only \<open>tie_rule\<close> is known. \<open>first_row\<close> is the
  engine that returns the row stored first.\<close>

definition newest :: "Revision list \<Rightarrow> Revision list" where
  "newest rs = filter (\<lambda>r. \<forall>r' \<in> set rs. RevCreatedAt r' \<le> RevCreatedAt r) rs"

definition order_desc_limit1 :: "(Revision list \<Rightarrow> Revision) \<Rightarrow> Revision list \<Rightarrow> Revision option" where
  "order_desc_limit1 pick rs = (if rs = [] then None else Some (pick (newest rs)))"

definition tie_rule :: "(Revision list \<Rightarrow> Revision) \<Rightarrow> bool" where
  "tie_rule pick = (\<forall>rs. rs \<noteq> [] \<longrightarrow> pick rs \<in> set rs)"

definition first_row :: "Revision list \<Rightarrow> Revision" where
  "first_row rs = hd rs"

subsection \<open>pages.go\<close>

definition GetPageBySlug :: "DB \<Rightarrow> gostring \<Rightarrow> error + Page" where
  "GetPageBySlug db slug =
     (case page_by_slug db slug of None \<Rightarrow> Inl ErrNotFound | Some page \<Rightarrow> Inr page)"

definition GetPageByID :: "DB \<Rightarrow> int \<Rightarrow> error + Page" where
  "GetPageByID db i =
     (case page_by_id db i of None \<Rightarrow> Inl ErrNotFound | Some page \<Rightarrow> Inr page)"

text \<open>\<open>CreatePage\<close> runs in a transaction: \<open>tx1\<close>, \<open>tx2\<close>, \<open>tx3\<close> are the uncommitted states, and
  every early return rolls back to \<open>db\<close>.\<close>

definition CreatePage ::
  "DB \<Rightarrow> gostring \<Rightarrow> gostring \<Rightarrow> gostring \<Rightarrow> int \<Rightarrow> time \<Rightarrow> (error + Page) \<times> DB" where
  "CreatePage db slug title content authorID now =
     (case (case page_by_slug db slug of
              None \<Rightarrow> insert_page db slug title False None None now
            | Some existing \<Rightarrow>
                if IsPhantom existing
                then Inr (ID existing,
                          update_pages db (\<lambda>p. ID p = ID existing)
                            (\<lambda>p. p\<lparr>Title := title, IsPhantom := False, UpdatedAt := now\<rparr>))
                else Inl ErrPageExists) of
        Inl e \<Rightarrow> (Inl e, db)
      | Inr (pageID, tx1) \<Rightarrow>
          (case insert_revision tx1 pageID content authorID now of
             Inl e \<Rightarrow> (Inl e, db)
           | Inr tx2 \<Rightarrow>
               (case fts_insert tx2 pageID title content of
                  Inl e \<Rightarrow> (Inl e, db)
                | Inr tx3 \<Rightarrow> (GetPageByID tx3 pageID, tx3))))"

definition UpdatePage ::
  "DB \<Rightarrow> int \<Rightarrow> gostring \<Rightarrow> gostring \<Rightarrow> int \<Rightarrow> time \<Rightarrow> error option \<times> DB" where
  "UpdatePage db pageID title content authorID now =
     (let tx1 = update_pages db (\<lambda>p. ID p = pageID) (\<lambda>p. p\<lparr>Title := title, UpdatedAt := now\<rparr>)
      in case insert_revision tx1 pageID content authorID now of
           Inl e \<Rightarrow> (Some e, db)
         | Inr tx2 \<Rightarrow>
             (case fts_insert (fts_delete tx2 pageID) pageID title content of
                Inl e \<Rightarrow> (Some e, db)
              | Inr tx3 \<Rightarrow> (None, tx3)))"

definition CreatePhantom ::
  "DB \<Rightarrow> gostring \<Rightarrow> gostring \<Rightarrow> int \<Rightarrow> int \<Rightarrow> time \<Rightarrow> (error + Page) \<times> DB" where
  "CreatePhantom db slug title citedByUserID citedInPageID now =
     (case GetPageBySlug db slug of
        Inr existing \<Rightarrow> (Inr existing, db)
      | Inl e \<Rightarrow>
          if e \<noteq> ErrNotFound then (Inl e, db)
          else (case insert_page db slug title True (Some citedByUserID) (Some citedInPageID) now of
                  Inl e' \<Rightarrow> (Inl e', db)
                | Inr (i, db') \<Rightarrow> (GetPageByID db' i, db')))"

definition PageExists :: "DB \<Rightarrow> gostring \<Rightarrow> bool" where
  "PageExists db slug = (length (filter (\<lambda>p. Slug p = slug) (pages db)) > 0)"

text \<open>\<open>SoftDeletePage\<close> and \<open>RestorePage\<close> run their statements one by one, outside a
  transaction, and do not look at the result of the statement on \<^verbatim>\<open>pages_fts\<close>.\<close>

definition SoftDeletePage :: "DB \<Rightarrow> int \<Rightarrow> time \<Rightarrow> error option \<times> DB" where
  "SoftDeletePage db pageID now =
     (let rows = length (filter (\<lambda>p. ID p = pageID \<and> DeletedAt p = None) (pages db));
          db1 = update_pages db (\<lambda>p. ID p = pageID \<and> DeletedAt p = None)
                  (\<lambda>p. p\<lparr>DeletedAt := Some now, UpdatedAt := now\<rparr>)
      in if rows = 0 then (Some ErrNotFound, db1)
         else (None, fts_delete db1 pageID))"

text \<open>The query of \<open>RestorePage\<close> joins the page to its revisions with a LEFT JOIN and reads
  \<^verbatim>\<open>COALESCE(r.content, '')\<close>: a page without revisions still gives one row, with the empty
  content.\<close>

definition RestorePage ::
  "(Revision list \<Rightarrow> Revision) \<Rightarrow> DB \<Rightarrow> int \<Rightarrow> time \<Rightarrow> error option \<times> DB" where
  "RestorePage pick db pageID now =
     (case find (\<lambda>p. ID p = pageID \<and> DeletedAt p \<noteq> None) (pages db) of
        None \<Rightarrow> (Some ErrNotFound, db)
      | Some p \<Rightarrow>
          let title = Title p;
              content = (case order_desc_limit1 pick
                                (filter (\<lambda>r. PageID r = ID p) (revisions db)) of
                           None \<Rightarrow> []
                         | Some r \<Rightarrow> Content r);
              db1 = update_pages db (\<lambda>q. ID q = pageID)
                      (\<lambda>q. q\<lparr>DeletedAt := None, UpdatedAt := now\<rparr>);
              db2 = (case fts_insert db1 pageID title content of
                       Inl e \<Rightarrow> db1
                     | Inr d \<Rightarrow> d)
          in (None, db2))"

text \<open>The listings. \<open>sort_key\<close> keeps rows with equal keys in the order of the table; nothing
  proved below depends on the order among equal keys.\<close>

definition ListDeletedPages :: "DB \<Rightarrow> Page list" where
  "ListDeletedPages db =
     sort_key (\<lambda>p. case DeletedAt p of Some t \<Rightarrow> - int t | None \<Rightarrow> 0)
       (filter (\<lambda>p. DeletedAt p \<noteq> None) (pages db))"

definition ListPages :: "DB \<Rightarrow> Page list" where
  "ListPages db = sort_key Title (filter (\<lambda>p. \<not> IsPhantom p \<and> DeletedAt p = None) (pages db))"

definition ListPhantoms :: "DB \<Rightarrow> Page list" where
  "ListPhantoms db = sort_key Title (filter (\<lambda>p. IsPhantom p \<and> DeletedAt p = None) (pages db))"

definition ListRecentPages :: "DB \<Rightarrow> int \<Rightarrow> Page list" where
  "ListRecentPages db limit =
     (let rows = sort_key (\<lambda>p. - int (UpdatedAt p))
                   (filter (\<lambda>p. \<not> IsPhantom p \<and> DeletedAt p = None) (pages db))
      in if limit < 0 then rows else take (nat limit) rows)"

definition PageStats :: "DB \<Rightarrow> nat \<times> nat" where
  "PageStats db =
     (length (filter (\<lambda>p. \<not> IsPhantom p \<and> DeletedAt p = None) (pages db)),
      length (filter (\<lambda>p. IsPhantom p \<and> DeletedAt p = None) (pages db)))"

subsection \<open>revisions.go\<close>

text \<open>The rows of \<^verbatim>\<open>revisions r JOIN users u ON r.author_id = u.id WHERE r.page_id = ?\<close>.\<close>

definition revisions_with_author :: "DB \<Rightarrow> int \<Rightarrow> Revision list" where
  "revisions_with_author db pageID =
     concat (map (\<lambda>r. map (\<lambda>u. r\<lparr>AuthorUsername := Username u\<rparr>)
                        (filter (\<lambda>u. UserID u = AuthorID r) (users db)))
                 (filter (\<lambda>r. PageID r = pageID) (revisions db)))"

definition GetCurrentRevision ::
  "(Revision list \<Rightarrow> Revision) \<Rightarrow> DB \<Rightarrow> int \<Rightarrow> error + Revision" where
  "GetCurrentRevision pick db pageID =
     (case order_desc_limit1 pick (revisions_with_author db pageID) of
        None \<Rightarrow> Inl ErrNotFound
      | Some revision \<Rightarrow> Inr revision)"

section \<open>The save path (package handler, package markdown)\<close>

type_synonym LinkInfo = WikiLink

text \<open>\<open>ExtractLinks\<close> gives the content to the parser of the markdown library, with the
  wiki-link parser registered for the character \<^verbatim>\<open>[\<close>, and collects the wiki-link nodes of the
  document in reading order. The library is not part of the repository. \<open>inline_loop\<close> is its
  loop over the bytes of a block, for a content that is one line of plain text: the reader
  stands at the byte offset \<open>pos\<close> of the source; at a \<^verbatim>\<open>[\<close> the loop calls \<open>Parse\<close>, which peeks
  the unread rest of the line with \<open>pos\<close> as \<^verbatim>\<open>segment.Start\<close>; when \<open>Parse\<close> returns a node, the
  node is appended and the reader has advanced by the count \<open>Parse\<close> gave to \<^verbatim>\<open>Advance\<close> (it stops
  at the end of the line); when \<open>Parse\<close> returns nil, the reader is where it was and the bracket
  is passed by one byte. \<open>skip\<close> is what is left to go of an advance; a code point the advance
  ends in is passed whole, its remaining bytes being no \<^verbatim>\<open>[\<close>. The block structure of a longer
  document and the library's own inline parsers (code spans, links, emphasis, raw HTML,
  backslash escapes) are not modelled.\<close>

fun inline_loop :: "unicode_tables \<Rightarrow> gostring \<Rightarrow> nat \<Rightarrow> nat \<Rightarrow> LinkInfo list" where
  "inline_loop U [] pos skip = []"
| "inline_loop U (c # rest) pos skip =
     (if 0 < skip then inline_loop U rest (pos + RuneLen c) (skip - RuneLen c)
      else if c = 91 then
        (case Parse U (c # rest) pos of
           Some (node, n) \<Rightarrow>
             \<lparr>Target = Target node, DisplayText = DisplayText node\<rparr>
               # inline_loop U rest (pos + RuneLen c) (n - RuneLen c)
         | None \<Rightarrow> inline_loop U rest (pos + RuneLen c) 0)
      else inline_loop U rest (pos + RuneLen c) 0)"

definition ExtractLinks :: "unicode_tables \<Rightarrow> gostring \<Rightarrow> LinkInfo list" where
  "ExtractLinks U content = inline_loop U content 0 0"

text \<open>\<open>UniqueTargets\<close>: the map \<open>seen\<close> holds exactly the targets appended so far.\<close>

definition UniqueTargets :: "LinkInfo list \<Rightarrow> gostring list" where
  "UniqueTargets links =
     foldl (\<lambda>targets link. if Target link \<in> set targets then targets
                            else targets @ [Target link]) [] links"

text \<open>\<open>processWikiLinks\<close> on the links that \<open>ExtractLinks\<close> found in the content.\<close>

definition processWikiLinks :: "DB \<Rightarrow> LinkInfo list \<Rightarrow> int \<Rightarrow> int \<Rightarrow> time \<Rightarrow> DB" where
  "processWikiLinks db links userID pageID now =
     foldl (\<lambda>d target.
              if PageExists d target then d
              else
                let displayText = (case find (\<lambda>link. Target link = target) links of
                                     Some link \<Rightarrow> DisplayText link
                                   | None \<Rightarrow> [])
                in snd (CreatePhantom d target displayText userID pageID now))
       db (UniqueTargets links)"

datatype response =
  TitleRequired | TitleTooLong | ContentTooLong | CreateFailed | UpdateFailed | DatabaseError
  | PageSaved

text \<open>\<open>SavePage\<close>: \<open>slug\<close> is the URL parameter, \<open>userID\<close> the logged-in user, and \<open>extract\<close>
  stands for \<open>Markdown.ExtractLinks\<close>, the walk over the document that the markdown library
  parses with the wiki-link parser plugged in (\<open>ExtractLinks\<close> above, for a content of one
  line).\<close>

definition SavePage ::
  "(gostring \<Rightarrow> LinkInfo list) \<Rightarrow> DB \<Rightarrow> gostring \<Rightarrow> int \<Rightarrow> gostring \<Rightarrow> gostring \<Rightarrow> time
     \<Rightarrow> response \<times> DB" where
  "SavePage extract db slug userID title content now =
     (if title = [] then (TitleRequired, db)
      else if len title > 500 then (TitleTooLong, db)
      else if len content > 500 * 1024 then (ContentTooLong, db)
      else
        let found = GetPageBySlug db slug;
            create = (case found of Inl e \<Rightarrow> e = ErrNotFound | Inr page \<Rightarrow> IsPhantom page)
        in if create then
             (case CreatePage db slug title content userID now of
                (Inl e, db') \<Rightarrow> (CreateFailed, db')
              | (Inr page, db') \<Rightarrow>
                  (PageSaved, processWikiLinks db' (extract content) userID (ID page) now))
           else
             (case found of
                Inl e \<Rightarrow> (DatabaseError, db)
              | Inr page \<Rightarrow>
                  (case UpdatePage db (ID page) title content userID now of
                     (Some e, db') \<Rightarrow> (UpdateFailed, db')
                   | (None, db') \<Rightarrow>
                       (PageSaved, processWikiLinks db' (extract content) userID (ID page) now))))"

section \<open>Sequences of store operations\<close>

datatype store_op =
    OpCreatePage gostring gostring gostring int time
  | OpUpdatePage int gostring gostring int time
  | OpCreatePhantom gostring gostring int int time
  | OpSoftDeletePage int time
  | OpRestorePage int time

fun apply_op :: "(Revision list \<Rightarrow> Revision) \<Rightarrow> DB \<Rightarrow> store_op \<Rightarrow> DB" where
  "apply_op pick db (OpCreatePage slug title content author now) =
     snd (CreatePage db slug title content author now)"
| "apply_op pick db (OpUpdatePage pageID title content author now) =
     snd (UpdatePage db pageID title content author now)"
| "apply_op pick db (OpCreatePhantom slug title by_user in_page now) =
     snd (CreatePhantom db slug title by_user in_page now)"
| "apply_op pick db (OpSoftDeletePage pageID now) = snd (SoftDeletePage db pageID now)"
| "apply_op pick db (OpRestorePage pageID now) = snd (RestorePage pick db pageID now)"

definition run :: "(Revision list \<Rightarrow> Revision) \<Rightarrow> DB \<Rightarrow> store_op list \<Rightarrow> DB" where
  "run pick db ops = foldl (apply_op pick) db ops"

text \<open>A database with the given users and nothing else.\<close>

definition empty_db :: "User list \<Rightarrow> DB" where
  "empty_db us = \<lparr>users = us, pages = [], revisions = [], pages_fts = [],
                  pages_seq = 0, revisions_seq = 0\<rparr>"

text \<open>The index invariant in the words of the specification: the index has an entry for a
  page exactly when the page is neither a phantom nor soft-deleted, and the entry holds the
  page's title and the content of its current revision.\<close>

definition index_entry :: "DB \<Rightarrow> int \<Rightarrow> (gostring \<times> gostring) option" where
  "index_entry db i = map_of (pages_fts db) i"

definition fts_synced :: "(Revision list \<Rightarrow> Revision) \<Rightarrow> DB \<Rightarrow> bool" where
  "fts_synced pick db =
     list_all (\<lambda>p. index_entry db (ID p) =
                    (if IsPhantom p \<or> DeletedAt p \<noteq> None then None
                     else (case GetCurrentRevision pick db (ID p) of
                             Inr revision \<Rightarrow> Some (Title p, Content revision)
                           | Inl e \<Rightarrow> None)))
       (pages db)"

text \<open>Two states are the same but for page rows added at the end of the table.\<close>

definition same_but_pages :: "DB \<Rightarrow> DB \<Rightarrow> bool" where
  "same_but_pages db db' =
     (\<exists>new. pages db' = pages db @ new \<and> users db' = users db \<and>
            revisions db' = revisions db \<and> pages_fts db' = pages_fts db)"

section \<open>Example states\<close>

text \<open>Two users; a page \<open>a\<close> written by the first; a phantom \<open>b\<close> cited from it; then either of
  them soft-deleted; and page \<open>a\<close> edited at the very instant of its creation.\<close>

definition demo_users :: "User list" where
  "demo_users = [\<lparr>UserID = 1, Username = gostr ''ann''\<rparr>, \<lparr>UserID = 2, Username = gostr ''bob''\<rparr>]"

definition db_a :: DB where
  "db_a = run first_row (empty_db demo_users)
            [OpCreatePage (gostr ''a'') (gostr ''A'') (gostr ''x'') 1 10]"

definition db_ab :: DB where
  "db_ab = run first_row db_a [OpCreatePhantom (gostr ''b'') (gostr ''B'') 1 1 11]"

definition db_a_deleted :: DB where
  "db_a_deleted = run first_row db_ab [OpSoftDeletePage 1 20]"

definition db_b_deleted :: DB where
  "db_b_deleted = run first_row db_ab [OpSoftDeletePage 2 20]"

definition db_tie :: DB where
  "db_tie = run first_row db_a [OpUpdatePage 1 (gostr ''A'') (gostr ''y'') 2 10]"

text \<open>Rows of these states.\<close>

definition row_a_deleted :: Page where
  "row_a_deleted = \<lparr>ID = 1, Slug = gostr ''a'', Title = gostr ''A'', IsPhantom = False,
                     FirstCitedByUserID = None, FirstCitedInPageID = None,
                     DeletedAt = Some 20, CreatedAt = 10, UpdatedAt = 20\<rparr>"

definition row_b :: Page where
  "row_b = \<lparr>ID = 2, Slug = gostr ''b'', Title = gostr ''B'', IsPhantom = True,
             FirstCitedByUserID = Some 1, FirstCitedInPageID = Some 1,
             DeletedAt = None, CreatedAt = 11, UpdatedAt = 11\<rparr>"

definition rev_x :: Revision where
  "rev_x = \<lparr>RevID = 1, PageID = 1, Content = gostr ''x'', AuthorID = 1,
             RevCreatedAt = 10, AuthorUsername = []\<rparr>"

definition rev_y :: Revision where
  "rev_y = \<lparr>RevID = 2, PageID = 1, Content = gostr ''y'', AuthorID = 2,
             RevCreatedAt = 10, AuthorUsername = []\<rparr>"

text \<open>The slug column next to the key, for the rows in table order.\<close>

definition slug_table :: "DB \<Rightarrow> (int \<times> gostring) list" where
  "slug_table db = map (\<lambda>p. (ID p, Slug p)) (pages db)"

text \<open>The step of the loop in \<open>processWikiLinks\<close>.\<close>

definition link_step :: "LinkInfo list \<Rightarrow> int \<Rightarrow> int \<Rightarrow> time \<Rightarrow> DB \<Rightarrow> gostring \<Rightarrow> DB" where
  "link_step links userID pageID now d target =
     (if PageExists d target then d
      else
        let displayText = (case find (\<lambda>link. Target link = target) links of
                             Some link \<Rightarrow> DisplayText link
                           | None \<Rightarrow> [])
        in snd (CreatePhantom d target displayText userID pageID now))"

text \<open>The extraction on a content without links, and the piped link of the example.\<close>

definition no_links :: "gostring \<Rightarrow> LinkInfo list" where
  "no_links content = []"

definition piped_link :: LinkInfo where
  "piped_link = \<lparr>Target = gostr ''unwritten-topic'', DisplayText = gostr ''see here''\<rparr>"

text \<open>A line that cites a first target and, further along, a second one through a piped
  link; the first save of a page with that line as its content; and the first save of a page
  whose content is the piped link alone.\<close>

definition content_two_links :: gostring where
  "content_two_links = gostr ''Intro text. [[Known]] and [[Unwritten Topic|see here]]''"

definition db_two_links :: DB where
  "db_two_links = snd (SavePage (ExtractLinks ascii_tables) (empty_db demo_users) (gostr ''intro'') 1
                         (gostr ''Intro'') content_two_links 5)"

definition db_one_link :: DB where
  "db_one_link = snd (SavePage (ExtractLinks ascii_tables) (empty_db demo_users) (gostr ''intro'') 1
                        (gostr ''Intro'') (gostr ''[[Unwritten Topic|see here]]'') 5)"

text \<open>The soft-deleted page \<open>a\<close> edited again; the soft-deleted phantom \<open>b\<close> restored; and a
  first save under a slug with capital letters, and under one with a space.\<close>

definition db_edit_deleted :: DB where
  "db_edit_deleted = run first_row db_a_deleted [OpUpdatePage 1 (gostr ''A'') (gostr ''y'') 1 30]"

definition db_b_restored :: DB where
  "db_b_restored = run first_row db_b_deleted [OpRestorePage 2 30]"

definition db_upper :: DB where
  "db_upper = snd (SavePage no_links (empty_db demo_users) (gostr ''UPPER'') 1
                     (gostr ''Upper'') (gostr ''text'') 5)"

definition db_my_page :: DB where
  "db_my_page = snd (SavePage no_links (empty_db demo_users) (gostr ''My Page'') 1
                       (gostr ''My Page'') (gostr ''text'') 5)"

section \<open>The index invariant on operations within their domain\<close>

text \<open>The revisions of a page, in the order of insertion.\<close>

definition revs_of :: "DB \<Rightarrow> int \<Rightarrow> Revision list" where
  "revs_of db i = filter (\<lambda>r. PageID r = i) (revisions db)"

text \<open>What the index should hold for a page: nothing for a phantom or a soft-deleted page,
  else the title and the content of the revision inserted last.\<close>

definition expected_entry :: "DB \<Rightarrow> Page \<Rightarrow> (gostring \<times> gostring) option" where
  "expected_entry db p =
     (if IsPhantom p \<or> DeletedAt p \<noteq> None then None
      else Some (Title p, Content (last (revs_of db (ID p)))))"

text \<open>The state invariant: ids are keys; revisions and index rows refer to pages, and
  revisions to users; exactly the phantoms have no revision, and the revisions of a page
  have strictly increasing times; and the index holds the expected entry for every page.\<close>

definition inv_keys :: "DB \<Rightarrow> bool" where
  "inv_keys db = distinct (map ID (pages db))"

definition inv_refs :: "DB \<Rightarrow> bool" where
  "inv_refs db =
     ((\<forall>r \<in> set (revisions db). PageID r \<in> set (map ID (pages db)) \<and>
                                AuthorID r \<in> set (map UserID (users db))) \<and>
      (\<forall>k \<in> set (map fst (pages_fts db)). k \<in> set (map ID (pages db))))"

definition inv_revs :: "DB \<Rightarrow> bool" where
  "inv_revs db =
     ((\<forall>p \<in> set (pages db). (revs_of db (ID p) = []) = IsPhantom p) \<and>
      (\<forall>i. sorted_wrt (<) (map RevCreatedAt (revs_of db i))))"

definition inv_index :: "DB \<Rightarrow> bool" where
  "inv_index db = (\<forall>p \<in> set (pages db). index_entry db (ID p) = expected_entry db p)"

definition store_inv :: "DB \<Rightarrow> bool" where
  "store_inv db = (inv_keys db \<and> inv_refs db \<and> inv_revs db \<and> inv_index db)"

text \<open>The domain of the operations: \<open>CreatePage\<close> does not write over a soft-deleted
  phantom; \<open>UpdatePage\<close> is for a page that is real and not soft-deleted, at a time later
  than the page's revisions; \<open>RestorePage\<close> is for a real page.\<close>

fun op_ok :: "DB \<Rightarrow> store_op \<Rightarrow> bool" where
  "op_ok db (OpCreatePage slug title content author now) =
     (case page_by_slug db slug of
        Some p \<Rightarrow> \<not> (IsPhantom p \<and> DeletedAt p \<noteq> None)
      | None \<Rightarrow> True)"
| "op_ok db (OpUpdatePage pageID title content author now) =
     (list_all (\<lambda>p. ID p \<noteq> pageID \<or> (\<not> IsPhantom p \<and> DeletedAt p = None)) (pages db) \<and>
      list_all (\<lambda>r. RevCreatedAt r < now) (revs_of db pageID))"
| "op_ok db (OpRestorePage pageID now) =
     list_all (\<lambda>p. ID p \<noteq> pageID \<or> \<not> IsPhantom p) (pages db)"
| "op_ok db other = True"

fun guarded :: "(Revision list \<Rightarrow> Revision) \<Rightarrow> DB \<Rightarrow> store_op list \<Rightarrow> bool" where
  "guarded pick db [] = True"
| "guarded pick db (op # ops) = (op_ok db op \<and> guarded pick (apply_op pick db op) ops)"

text \<open>A sequence of operations within their domain, and the soft-deleted phantom \<open>b\<close>
  written by \<open>CreatePage\<close>.\<close>

definition ops_in_domain :: "store_op list" where
  "ops_in_domain =
     [OpCreatePage (gostr ''a'') (gostr ''A'') (gostr ''x'') 1 10,
      OpCreatePhantom (gostr ''b'') (gostr ''B'') 1 1 11,
      OpSoftDeletePage 1 20,
      OpRestorePage 1 25,
      OpUpdatePage 1 (gostr ''A2'') (gostr ''y'') 2 30,
      OpCreatePage (gostr ''b'') (gostr ''B'') (gostr ''text'') 2 40,
      OpSoftDeletePage 2 50]"

definition db_b_written :: DB where
  "db_b_written = run first_row db_b_deleted
                    [OpCreatePage (gostr ''b'') (gostr ''B'') (gostr ''text'') 1 40]"

section \<open>Properties of Slugify\<close>

lemma slug_runes_all: "\<forall>r \<in> set (slug_runes U s). is_slug_rune r"
  by (induction s) (auto simp: is_slug_rune_def)

lemma slug_runes_fixed: "\<forall>r \<in> set s. is_slug_rune r \<Longrightarrow> slug_runes U s = s"
  by (induction s) (auto simp: is_slug_rune_def)

lemma set_collapse_hyphens: "set (collapse_hyphens s) \<subseteq> set s"
  by (induction s rule: collapse_hyphens.induct) auto

lemma set_Trim: "set (Trim s c) \<subseteq> set s"
proof -
  have "set (dropWhile (\<lambda>r. r \<in> set c) (rev (dropWhile (\<lambda>r. r \<in> set c) s)))
          \<subseteq> set (rev (dropWhile (\<lambda>r. r \<in> set c) s))"
    by (rule set_dropWhileD [THEN subsetI])
  also have "\<dots> \<subseteq> set s"
    by (auto dest: set_dropWhileD)
  finally show ?thesis by (simp add: Trim_def)
qed

lemma Slugify_runes: "\<forall>r \<in> set (Slugify U t). is_slug_rune r"
proof -
  have "set (Slugify U t) \<subseteq>
        set (slug_runes U (ReplaceAll (ReplaceAll (ToLower U (NFKD U t)) 32 45) 95 45))"
    unfolding Slugify_def Let_def
    using set_Trim set_collapse_hyphens by (rule subset_trans)
  then show ?thesis using slug_runes_all by blast
qed

lemma collapse_hyphens_Cons: "\<exists>l. collapse_hyphens (b # rs) = b # l"
  by (induction rs arbitrary: b) auto

lemma no_hyphen_run_collapse: "no_hyphen_run (collapse_hyphens s)"
proof (induction s rule: collapse_hyphens.induct)
  case (1 a b rs)
  obtain l where l: "collapse_hyphens (b # rs) = b # l"
    using collapse_hyphens_Cons by blast
  with 1 show ?case by auto
qed simp_all

lemma collapse_fixed: "no_hyphen_run s \<Longrightarrow> collapse_hyphens s = s"
  by (induction s rule: collapse_hyphens.induct) auto

lemma no_hyphen_run_suffix: "no_hyphen_run (xs @ ys) \<Longrightarrow> no_hyphen_run ys"
proof (induction xs)
  case (Cons a xs)
  then show ?case by (cases "xs @ ys") auto
qed simp

lemma no_hyphen_run_prefix: "no_hyphen_run (xs @ ys) \<Longrightarrow> no_hyphen_run xs"
proof (induction xs rule: no_hyphen_run.induct)
  case (1 a b rs)
  then show ?case by auto
qed simp_all

lemma no_hyphen_run_Trim: "no_hyphen_run s \<Longrightarrow> no_hyphen_run (Trim s c)"
proof -
  let ?P = "\<lambda>r. r \<in> set c"
  let ?d = "dropWhile ?P s"
  assume a: "no_hyphen_run s"
  have "s = takeWhile ?P s @ ?d" by simp
  with a have d: "no_hyphen_run ?d" using no_hyphen_run_suffix by metis
  have "rev ?d = takeWhile ?P (rev ?d) @ dropWhile ?P (rev ?d)" by simp
  then have "?d = rev (dropWhile ?P (rev ?d)) @ rev (takeWhile ?P (rev ?d))"
    by (metis rev_append rev_rev_ident)
  with d have "no_hyphen_run (rev (dropWhile ?P (rev ?d)))"
    using no_hyphen_run_prefix by metis
  then show ?thesis by (simp add: Trim_def)
qed

lemma dropWhile_rev_dropWhile_aux:
  assumes "d = [] \<or> \<not> P (hd d)"
  shows "dropWhile P (rev (dropWhile P (rev d))) = rev (dropWhile P (rev d))"
proof (cases d)
  case Nil
  then show ?thesis by simp
next
  case (Cons x xs)
  with assms have nP: "\<not> P x" by simp
  have "rev (dropWhile P (rev d)) = x # rev (dropWhile P (rev xs))"
    using nP Cons by (simp add: dropWhile_append)
  then show ?thesis using nP by simp
qed

lemma dropWhile_rev_dropWhile:
  "dropWhile P (rev (dropWhile P (rev (dropWhile P s)))) = rev (dropWhile P (rev (dropWhile P s)))"
proof (rule dropWhile_rev_dropWhile_aux)
  show "dropWhile P s = [] \<or> \<not> P (hd (dropWhile P s))"
    using hd_dropWhile by blast
qed

lemma Trim_Trim: "Trim (Trim s c) c = Trim s c"
proof -
  let ?P = "\<lambda>r. r \<in> set c"
  let ?e = "dropWhile ?P (rev (dropWhile ?P s))"
  have 1: "dropWhile ?P (rev ?e) = rev ?e"
    by (rule dropWhile_rev_dropWhile)
  have 2: "dropWhile ?P ?e = ?e"
    by (simp add: dropWhile_idem)
  show ?thesis
    unfolding Trim_def by (simp only: 1 rev_rev_ident 2)
qed

lemma ascii_slug_rune: "is_slug_rune r \<Longrightarrow> r < 128"
  by (auto simp: is_slug_rune_def)

lemma ToLower_fixed: "\<forall>r \<in> set s. is_slug_rune r \<Longrightarrow> ToLower U s = s"
  by (induction s) (auto simp: ToLower_def ToLowerRune_def is_slug_rune_def)

lemma ReplaceAll_fixed: "old \<notin> set s \<Longrightarrow> ReplaceAll s old new = s"
  by (induction s) (auto simp: ReplaceAll_def)

lemma slug_shape_fixed:
  assumes U: "nfkd_ascii U"
    and runes: "\<forall>r \<in> set s. is_slug_rune r"
    and run: "no_hyphen_run s"
    and trim: "Trim s [45] = s"
  shows "Slugify U s = s"
proof -
  have n: "NFKD U s = s"
    using U runes ascii_slug_rune unfolding nfkd_ascii_def by blast
  have l: "ToLower U s = s" using runes by (rule ToLower_fixed)
  have "32 \<notin> set s" "95 \<notin> set s"
    using runes by (auto simp: is_slug_rune_def)
  then have r: "ReplaceAll s 32 45 = s" "ReplaceAll s 95 45 = s"
    by (simp_all add: ReplaceAll_fixed)
  have f: "slug_runes U s = s" using runes by (rule slug_runes_fixed)
  have c: "collapse_hyphens s = s" using run by (rule collapse_fixed)
  show ?thesis
    by (simp add: Slugify_def Let_def n l r f c trim)
qed

lemma Slugify_shape:
  "no_hyphen_run (Slugify U t) \<and> Trim (Slugify U t) [45] = Slugify U t"
  unfolding Slugify_def Let_def
  by (simp add: no_hyphen_run_Trim no_hyphen_run_collapse Trim_Trim)

text \<open>
  Claim C9. Slugify is idempotent on every title: normalising a slug again gives the same
  slug. Slugify is a total function of its argument (and of the Unicode tables) and has no
  other input, so it never fails and is pure. The tables are only required to leave ASCII
  text alone under NFKD.
\<close>

theorem Slugify_idempotent:
  "nfkd_ascii U \<Longrightarrow> Slugify U (Slugify U t) = Slugify U t"
  using slug_shape_fixed [of U "Slugify U t"] Slugify_runes [of U t] Slugify_shape [of U t]
  by blast

theorem Slugify_idempotent_witness:
  "nfkd_ascii ascii_tables \<and>
   Slugify ascii_tables (Slugify ascii_tables (gostr ''  Multiple   Spaces_X ''))
     = Slugify ascii_tables (gostr ''  Multiple   Spaces_X '') \<and>
   Slugify ascii_tables (gostr ''  Multiple   Spaces_X '') = gostr ''multiple-spaces-x''"
proof -
  have h: "nfkd_ascii ascii_tables"
    by (simp add: nfkd_ascii_def ascii_tables_def)
  have e: "Slugify ascii_tables (gostr ''  Multiple   Spaces_X '') = gostr ''multiple-spaces-x''"
    by (simp add: Slugify_def ascii_tables_def gostr_def ToLower_def ToLowerRune_def
        ReplaceAll_def Trim_def)
  show ?thesis
    using Slugify_idempotent [OF h, of "gostr ''  Multiple   Spaces_X ''"] h e by simp
qed

section \<open>Properties of the wiki-link parser\<close>

lemma find_close_Found:
  "find_close xs i = Found e \<Longrightarrow>
     \<exists>c rest. xs = c @ 93 # 93 # rest \<and> \<not> has_close (c @ [93]) \<and> 10 \<notin> set c \<and> e = i + length c"
proof (induction xs i rule: find_close.induct)
  case (1 a b rest i)
  show ?case
  proof (cases "a = 93 \<and> b = 93")
    case True
    with 1 have "e = i" by simp
    with True show ?thesis by (intro exI [of _ "[]"] exI [of _ rest]) simp
  next
    case False
    with 1 have na: "a \<noteq> 10" and f: "find_close (b # rest) (Suc i) = Found e"
      by (auto split: if_splits)
    from 1(1) [OF False na f] obtain c r where
      c: "b # rest = c @ 93 # 93 # r" "\<not> has_close (c @ [93])" "10 \<notin> set c" "e = Suc i + length c"
      by blast
    have "\<not> has_close ((a # c) @ [93])"
    proof (cases c)
      case Nil
      with c(1) False show ?thesis by simp
    next
      case (Cons x xs)
      with c(1) have "x = b" by simp
      with Cons c(2) False show ?thesis by simp
    qed
    with c na show ?thesis
      by (intro exI [of _ "a # c"] exI [of _ r]) simp
  qed
qed simp_all

lemma find_close_intro:
  "\<not> has_close (c @ [93]) \<Longrightarrow> 10 \<notin> set c \<Longrightarrow> find_close (c @ 93 # 93 # rest) i = Found (i + length c)"
proof (induction c arbitrary: i)
  case Nil
  then show ?case by simp
next
  case (Cons a c)
  obtain b l where bl: "c @ 93 # 93 # rest = b # l" by (cases c) auto
  have bl2: "\<exists>l'. c @ [93] = b # l'" using bl by (cases c) auto
  then obtain l' where l': "c @ [93] = b # l'" by blast
  from Cons.prems(1) l' have nab: "\<not> (a = 93 \<and> b = 93)" and nh: "\<not> has_close (c @ [93])"
    by auto
  from Cons.prems(2) have na: "a \<noteq> 10" and nc: "10 \<notin> set c" by auto
  have "find_close ((a # c) @ 93 # 93 # rest) i = find_close (b # l) (Suc i)"
    using bl nab na by auto
  also have "\<dots> = Found (Suc i + length c)"
    using Cons.IH [OF nh nc, of "Suc i"] bl by simp
  finally show ?case by simp
qed

lemma length_le_len: "length s \<le> len s"
  by (induction s) (auto simp: len_def RuneLen_def)

lemma Index_None: "Index c x = None \<longleftrightarrow> x \<notin> set c"
  by (induction c) auto

lemma Index_Some:
  "Index c x = Some idx \<Longrightarrow>
     take idx c = takeWhile (\<lambda>r. r \<noteq> x) c \<and> drop (Suc idx) c = tl (dropWhile (\<lambda>r. r \<noteq> x) c)"
  by (induction c arbitrary: idx) (auto split: if_splits)

lemma split_content:
  "(case Index content 124 of
      Some idx \<Rightarrow> (TrimSpace (take idx content), TrimSpace (drop (Suc idx) content))
    | None \<Rightarrow> (TrimSpace content, TrimSpace content))
   = (TrimSpace (takeWhile (\<lambda>r. r \<noteq> 124) content),
      if 124 \<in> set content then TrimSpace (tl (dropWhile (\<lambda>r. r \<noteq> 124) content))
      else TrimSpace (takeWhile (\<lambda>r. r \<noteq> 124) content))"
proof (cases "Index content 124")
  case None
  then have "124 \<notin> set content" by (simp add: Index_None)
  then have tw: "takeWhile (\<lambda>r. r \<noteq> 124) content = content"
    by (auto simp: takeWhile_eq_all_conv)
  show ?thesis
    by (simp only: None option.case tw \<open>124 \<notin> set content\<close> if_False)
next
  case (Some idx)
  then have "124 \<in> set content" using Index_None [of content 124] by auto
  with Some Index_Some [OF Some] show ?thesis by simp
qed

lemma Parse_decomposed:
  assumes nc: "\<not> has_close (c @ [93])" and nl: "10 \<notin> set c"
  shows "Parse U (91 # 91 # c @ 93 # 93 # rest) start
           = map_option (\<lambda>w. (w, start + len (91 # 91 # c @ [93, 93]))) (wikilink_spec U c)"
proof -
  let ?line = "91 # 91 # c @ 93 # 93 # rest"
  have "4 \<le> length ?line" by simp
  then have l4: "\<not> len ?line < 4" using length_le_len [of ?line] by linarith
  have fc: "find_close (c @ 93 # 93 # rest) 2 = Found (2 + length c)"
    using find_close_intro [OF nc nl] .
  have tk: "take (length c) (c @ 93 # 93 # rest) = c" by simp
  have tk2: "take (2 + length c + 2) ?line = 91 # 91 # c @ [93, 93]" by simp
  show ?thesis
  proof (cases "c = []")
    case True
    then show ?thesis
      using l4 by (simp add: Parse_def wikilink_spec_def TrimSpace_def)
  next
    case False
    show ?thesis
      unfolding Parse_def
      apply (simp only: l4 if_False list.case fc scan.case)
      apply (simp only: add_diff_cancel_left' tk tk2 Let_def split_content False if_False)
      apply (simp add: wikilink_spec_def NewWikiLink_def Let_def)
      done
  qed
qed

lemma Parse_Some_decomposed:
  assumes "Parse U line start = Some (w, n)"
  shows "\<exists>c rest. line = 91 # 91 # c @ 93 # 93 # rest \<and> \<not> has_close (c @ [93]) \<and> 10 \<notin> set c"
proof -
  from assms obtain a b r where l: "line = a # b # r"
    by (cases line; cases "tl line") (auto simp: Parse_def split: if_splits)
  from assms l have ab: "a = 91" "b = 91"
    by (auto simp: Parse_def split: if_splits)
  from assms l ab obtain e where e: "find_close r 2 = Found e"
    by (cases "find_close r 2") (auto simp: Parse_def split: if_splits)
  from find_close_Found [OF e] l ab show ?thesis by blast
qed

lemma slug_runes_filter: "slug_runes U s = filter is_slug_rune s"
  by (induction s) (auto simp: is_slug_rune_def)

lemma ToLower_ascii: "\<forall>r \<in> set s. r < 128 \<Longrightarrow> ToLower U s = ToLower U' s"
  by (induction s) (auto simp: ToLower_def ToLowerRune_def)

lemma Slugify_ascii:
  assumes "nfkd_ascii U" and "\<forall>r \<in> set s. r < 128"
  shows "Slugify U s = Slugify ascii_tables s"
proof -
  have n: "NFKD U s = s" using assms unfolding nfkd_ascii_def by blast
  have n': "NFKD ascii_tables s = s" by (simp add: ascii_tables_def)
  have l: "ToLower U s = ToLower ascii_tables s" using assms(2) by (rule ToLower_ascii)
  show ?thesis
    by (simp add: Slugify_def Let_def n n' l slug_runes_filter)
qed

lemmas eval_defs = Parse_def len_def RuneLen_def gostr_def TrimSpace_def IsSpace_def
  Slugify_def ascii_tables_def ToLower_def ToLowerRune_def ReplaceAll_def Trim_def
  NewWikiLink_def wikilink_spec_def

lemma Parse_examples:
  assumes U: "nfkd_ascii U"
  shows "Parse U (gostr ''[[Page Name]]'') start
           = Some (\<lparr>Target = gostr ''page-name'', DisplayText = gostr ''Page Name''\<rparr>, start + 13)"
    and "Parse U (gostr ''[[Page Name|Display]]'') start
           = Some (\<lparr>Target = gostr ''page-name'', DisplayText = gostr ''Display''\<rparr>, start + 21)"
    and "Parse U (gostr ''[[]]'') start = None"
    and "Parse U (gostr ''[[Page'') start = None"
proof -
  have s: "Slugify U (gostr ''Page Name'') = gostr ''page-name''"
    using Slugify_ascii [OF U, of "gostr ''Page Name''"]
    by (simp add: eval_defs)
  have "Parse U (gostr ''[['' @ gostr ''Page Name'' @ gostr '']]'' @ []) start
          = map_option (\<lambda>w. (w, start + len (gostr ''[['' @ gostr ''Page Name'' @ gostr '']]'')))
              (wikilink_spec U (gostr ''Page Name''))"
    using Parse_decomposed [of "gostr ''Page Name''" U "[]" start] by (simp add: gostr_def)
  moreover have "wikilink_spec U (gostr ''Page Name'')
      = Some \<lparr>Target = gostr ''page-name'', DisplayText = gostr ''Page Name''\<rparr>"
    using s by (simp add: wikilink_spec_def TrimSpace_def IsSpace_def gostr_def)
  ultimately show "Parse U (gostr ''[[Page Name]]'') start
           = Some (\<lparr>Target = gostr ''page-name'', DisplayText = gostr ''Page Name''\<rparr>, start + 13)"
    by (simp add: gostr_def len_def RuneLen_def)
  have "Parse U (gostr ''[['' @ gostr ''Page Name|Display'' @ gostr '']]'' @ []) start
          = map_option (\<lambda>w. (w, start + len (gostr ''[['' @ gostr ''Page Name|Display'' @ gostr '']]'')))
              (wikilink_spec U (gostr ''Page Name|Display''))"
    using Parse_decomposed [of "gostr ''Page Name|Display''" U "[]" start] by (simp add: gostr_def)
  moreover have "wikilink_spec U (gostr ''Page Name|Display'')
      = Some \<lparr>Target = gostr ''page-name'', DisplayText = gostr ''Display''\<rparr>"
    using s by (simp add: wikilink_spec_def TrimSpace_def IsSpace_def gostr_def)
  ultimately show "Parse U (gostr ''[[Page Name|Display]]'') start
           = Some (\<lparr>Target = gostr ''page-name'', DisplayText = gostr ''Display''\<rparr>, start + 21)"
    by (simp add: gostr_def len_def RuneLen_def)
  show "Parse U (gostr ''[[]]'') start = None"
    by (simp add: Parse_def gostr_def len_def RuneLen_def)
  show "Parse U (gostr ''[[Page'') start = None"
    by (simp add: Parse_def gostr_def len_def RuneLen_def)
qed

text \<open>
  Claim C4. The parse stage yields a link exactly when the line starts with \<^verbatim>\<open>[[\<close>, a closing
  \<^verbatim>\<open>]]\<close> follows on the same line (the first one is taken, and no newline comes before it), and
  the text between them, split at the first \<^verbatim>\<open>|\<close> and trimmed on both sides, has a non-empty
  reference title with a non-empty slug; the node carries that slug and the display text (the
  right side, or the trimmed title when there is no \<^verbatim>\<open>|\<close>). In every other case the result is
  the nil node, never an error. With a node comes the count given to the reader's
  \<^verbatim>\<open>Advance\<close>: the offset of the line in the source plus the length of the link. The four
  examples of the specification are part of the statement, for Unicode tables that leave
  ASCII text alone under NFKD.
\<close>

theorem Parse_wikilink:
  "(Parse U line start = Some (w, n) \<longleftrightarrow>
      (\<exists>content rest.
          line = gostr ''[['' @ content @ gostr '']]'' @ rest \<and>
          \<not> has_close (content @ gostr '']'') \<and> 10 \<notin> set content \<and>
          wikilink_spec U content = Some w \<and>
          n = start + len (gostr ''[['' @ content @ gostr '']]''))) \<and>
   (nfkd_ascii U \<longrightarrow>
      Parse U (gostr ''[[Page Name]]'') start
        = Some (\<lparr>Target = gostr ''page-name'', DisplayText = gostr ''Page Name''\<rparr>, start + 13) \<and>
      Parse U (gostr ''[[Page Name|Display]]'') start
        = Some (\<lparr>Target = gostr ''page-name'', DisplayText = gostr ''Display''\<rparr>, start + 21) \<and>
      Parse U (gostr ''[[]]'') start = None \<and>
      Parse U (gostr ''[[Page'') start = None)"
proof (intro conjI impI iffI)
  assume p: "Parse U line start = Some (w, n)"
  from Parse_Some_decomposed [OF p] obtain c rest where
    c: "line = 91 # 91 # c @ 93 # 93 # rest" "\<not> has_close (c @ [93])" "10 \<notin> set c"
    by blast
  from Parse_decomposed [OF c(2,3), of U rest start] p c(1)
  have "wikilink_spec U c = Some w \<and> n = start + len (91 # 91 # c @ [93, 93])"
    by auto
  with c show "\<exists>content rest.
          line = gostr ''[['' @ content @ gostr '']]'' @ rest \<and>
          \<not> has_close (content @ gostr '']'') \<and> 10 \<notin> set content \<and>
          wikilink_spec U content = Some w \<and>
          n = start + len (gostr ''[['' @ content @ gostr '']]'')"
    by (intro exI [of _ c] exI [of _ rest]) (simp add: gostr_def)
next
  assume "\<exists>content rest.
          line = gostr ''[['' @ content @ gostr '']]'' @ rest \<and>
          \<not> has_close (content @ gostr '']'') \<and> 10 \<notin> set content \<and>
          wikilink_spec U content = Some w \<and>
          n = start + len (gostr ''[['' @ content @ gostr '']]'')"
  then obtain c rest where
    c: "line = 91 # 91 # c @ 93 # 93 # rest" "\<not> has_close (c @ [93])" "10 \<notin> set c"
       "wikilink_spec U c = Some w" "n = start + len (91 # 91 # c @ [93, 93])"
    by (auto simp: gostr_def)
  from Parse_decomposed [OF c(2,3), of U rest start] c(1,4,5)
  show "Parse U line start = Some (w, n)" by simp
qed (simp_all add: Parse_examples)

theorem Parse_wikilink_witness:
  "nfkd_ascii ascii_tables \<and>
   Parse ascii_tables (gostr ''[[ Page Name | Display Text ]] and [[more]]'') 7
     = Some (\<lparr>Target = gostr ''page-name'', DisplayText = gostr ''Display Text''\<rparr>, 37) \<and>
   Parse ascii_tables (gostr ''[[Page Name]]'') 0
     = Some (\<lparr>Target = gostr ''page-name'', DisplayText = gostr ''Page Name''\<rparr>, 13) \<and>
   Parse ascii_tables (gostr ''[[Page Name|Display]]'') 0
     = Some (\<lparr>Target = gostr ''page-name'', DisplayText = gostr ''Display''\<rparr>, 21) \<and>
   Parse ascii_tables (gostr ''[[]]'') 0 = None \<and>
   Parse ascii_tables (gostr ''[[Page'') 0 = None"
proof -
  have h: "nfkd_ascii ascii_tables"
    by (simp add: nfkd_ascii_def ascii_tables_def)
  have d: "gostr ''[[ Page Name | Display Text ]] and [[more]]''
             = gostr ''[['' @ gostr '' Page Name | Display Text '' @ gostr '']]'' @ gostr '' and [[more]]''"
    by (simp add: gostr_def)
  have w: "wikilink_spec ascii_tables (gostr '' Page Name | Display Text '')
             = Some \<lparr>Target = gostr ''page-name'', DisplayText = gostr ''Display Text''\<rparr>"
    by (simp add: eval_defs)
  have n: "\<not> has_close (gostr '' Page Name | Display Text '' @ gostr '']'')"
    "10 \<notin> set (gostr '' Page Name | Display Text '')"
    "(37::nat) = 7 + len (gostr ''[['' @ gostr '' Page Name | Display Text '' @ gostr '']]'')"
    by (simp_all add: gostr_def len_def RuneLen_def)
  have "Parse ascii_tables (gostr ''[[ Page Name | Display Text ]] and [[more]]'') 7
     = Some (\<lparr>Target = gostr ''page-name'', DisplayText = gostr ''Display Text''\<rparr>, 37)"
    using Parse_wikilink [of ascii_tables "gostr ''[[ Page Name | Display Text ]] and [[more]]''" 7
        "\<lparr>Target = gostr ''page-name'', DisplayText = gostr ''Display Text''\<rparr>" 37]
      d w n by blast
  then show ?thesis
    using Parse_wikilink [of ascii_tables "[]" 0 "\<lparr>Target = [], DisplayText = []\<rparr>" 0] h
    by simp
qed

section \<open>Properties of the page store\<close>

lemma find_Some_mem: "find P xs = Some x \<Longrightarrow> x \<in> set xs \<and> P x"
  by (induction xs) (auto split: if_splits)

lemma find_None_conv: "find P xs = None \<longleftrightarrow> (\<forall>x \<in> set xs. \<not> P x)"
  by (induction xs) auto

lemma find_distinct_key:
  "distinct (map f xs) \<Longrightarrow> x \<in> set xs \<Longrightarrow> find (\<lambda>y. f y = f x) xs = Some x"
  by (induction xs) (auto simp: image_iff)

lemma find_append_Some: "find P xs = Some x \<Longrightarrow> find P (xs @ ys) = Some x"
  by (induction xs) auto

lemma insert_page_pages:
  "insert_page db slug title ph u pg now = Inr (i, db') \<Longrightarrow>
     \<exists>q. pages db' = pages db @ [q] \<and> ID q = i \<and> Slug q = slug \<and> Title q = title \<and>
         IsPhantom q = ph \<and> FirstCitedByUserID q = u \<and> FirstCitedInPageID q = pg \<and>
         DeletedAt q = None \<and>
         users db' = users db \<and> revisions db' = revisions db \<and> pages_fts db' = pages_fts db"
  by (auto simp: insert_page_def Let_def split: if_splits)

lemma CreatePhantom_existing:
  "page_by_slug db slug = Some p \<Longrightarrow> CreatePhantom db slug title u pg now = (Inr p, db)"
  by (simp add: CreatePhantom_def GetPageBySlug_def)

lemma CreatePhantom_grows:
  "\<exists>new. pages (snd (CreatePhantom db slug title u pg now)) = pages db @ new \<and>
         users (snd (CreatePhantom db slug title u pg now)) = users db \<and>
         revisions (snd (CreatePhantom db slug title u pg now)) = revisions db \<and>
         pages_fts (snd (CreatePhantom db slug title u pg now)) = pages_fts db"
proof (cases "page_by_slug db slug")
  case (Some p)
  then show ?thesis by (simp add: CreatePhantom_existing)
next
  case None
  show ?thesis
  proof (cases "insert_page db slug title True (Some u) (Some pg) now")
    case (Inl e)
    with None show ?thesis by (simp add: CreatePhantom_def GetPageBySlug_def)
  next
    case (Inr r)
    obtain i db' where r: "r = (i, db')" by (cases r)
    from insert_page_pages [OF Inr [unfolded r]] None Inr r show ?thesis
      by (auto simp: CreatePhantom_def GetPageBySlug_def)
  qed
qed

lemma processWikiLinks_step_grows:
  "same_but_pages db
     (foldl (\<lambda>d target.
              if PageExists d target then d
              else
                let displayText = (case find (\<lambda>link. Target link = target) links of
                                     Some link \<Rightarrow> DisplayText link
                                   | None \<Rightarrow> [])
                in snd (CreatePhantom d target displayText userID pageID now))
       db ts)"
proof (induction ts arbitrary: db)
  case Nil
  show ?case by (simp add: same_but_pages_def)
next
  case (Cons t ts)
  let ?step = "\<lambda>d target.
              if PageExists d target then d
              else
                let displayText = (case find (\<lambda>link. Target link = target) links of
                                     Some link \<Rightarrow> DisplayText link
                                   | None \<Rightarrow> [])
                in snd (CreatePhantom d target displayText userID pageID now)"
  have 1: "same_but_pages db (?step db t)"
    using CreatePhantom_grows [of db t _ userID pageID now]
    by (auto simp: same_but_pages_def Let_def)
  have 2: "same_but_pages (?step db t) (foldl ?step (?step db t) ts)"
    by (rule Cons.IH)
  from 1 2 have "same_but_pages db (foldl ?step (?step db t) ts)"
    unfolding same_but_pages_def by (metis append.assoc)
  then show ?case by simp
qed

lemma processWikiLinks_grows:
  "same_but_pages db (processWikiLinks db links userID pageID now)"
  unfolding processWikiLinks_def by (rule processWikiLinks_step_grows)

text \<open>
  Claim C3. \<open>CreatePhantom\<close> is idempotent: when the table already has a row with the slug
  (real or phantom), the call returns such a row as it is stored, with no error, and the
  database is unchanged, so no row is created and no field (the two citation fields in
  particular) is overwritten. Link processing as a whole only ever adds rows at the end of the
  pages table: the rows that were there keep every field.
\<close>

theorem CreatePhantom_idempotent:
  "((\<exists>p \<in> set (pages db). Slug p = slug) \<longrightarrow>
      (\<exists>p \<in> set (pages db). Slug p = slug \<and>
          CreatePhantom db slug title citedByUserID citedInPageID now = (Inr p, db))) \<and>
   (\<exists>new. pages (processWikiLinks db links userID pageID now) = pages db @ new)"
proof (intro conjI impI)
  assume "\<exists>p \<in> set (pages db). Slug p = slug"
  then obtain p where p: "page_by_slug db slug = Some p"
    unfolding page_by_slug_def using find_None_conv [of "\<lambda>p. Slug p = slug" "pages db"]
    by (cases "find (\<lambda>p. Slug p = slug) (pages db)") auto
  then have "p \<in> set (pages db) \<and> Slug p = slug"
    unfolding page_by_slug_def by (rule find_Some_mem)
  with CreatePhantom_existing [OF p]
  show "\<exists>p \<in> set (pages db). Slug p = slug \<and>
          CreatePhantom db slug title citedByUserID citedInPageID now = (Inr p, db)"
    by blast
next
  show "\<exists>new. pages (processWikiLinks db links userID pageID now) = pages db @ new"
    using processWikiLinks_grows [of db links userID pageID now]
    unfolding same_but_pages_def by blast
qed

lemma newest_nonempty: "rs \<noteq> [] \<Longrightarrow> newest rs \<noteq> []"
proof -
  assume ne: "rs \<noteq> []"
  define m where "m = Max (RevCreatedAt ` set rs)"
  have fin: "finite (RevCreatedAt ` set rs)" by simp
  have "m \<in> RevCreatedAt ` set rs"
    unfolding m_def using ne by (intro Max_in) auto
  then obtain r where r: "r \<in> set rs" "RevCreatedAt r = m" by auto
  have "\<forall>r' \<in> set rs. RevCreatedAt r' \<le> m"
    unfolding m_def by (auto intro: Max_ge)
  with r have "r \<in> set (newest rs)" by (simp add: newest_def)
  then show ?thesis by auto
qed

lemma order_desc_limit1_None: "order_desc_limit1 pick rs = None \<longleftrightarrow> rs = []"
  by (simp add: order_desc_limit1_def)

lemma order_desc_limit1_Some:
  assumes "tie_rule pick" and "order_desc_limit1 pick rs = Some r"
  shows "r \<in> set rs \<and> (\<forall>r' \<in> set rs. RevCreatedAt r' \<le> RevCreatedAt r)"
proof -
  from assms(2) have ne: "rs \<noteq> []" and r: "r = pick (newest rs)"
    by (auto simp: order_desc_limit1_def split: if_splits)
  from assms(1) newest_nonempty [OF ne] have "pick (newest rs) \<in> set (newest rs)"
    by (simp add: tie_rule_def)
  with r show ?thesis by (simp add: newest_def)
qed

lemma revisions_with_author_page:
  "r \<in> set (revisions_with_author db pid) \<Longrightarrow> PageID r = pid"
  by (auto simp: revisions_with_author_def)

text \<open>
  Claim C8, as amended. \<open>GetCurrentRevision\<close> returns a revision of the page whose
  \<^verbatim>\<open>created_at\<close> is the largest among the page's revisions (joined with their authors), and
  \<open>ErrNotFound\<close> exactly when there is none. The query orders by \<^verbatim>\<open>created_at\<close> alone: among
  several revisions with the same latest \<^verbatim>\<open>created_at\<close> the result is the one the storage engine
  puts first, whatever its id.
\<close>

theorem GetCurrentRevision_latest:
  assumes "tie_rule pick"
  shows "(GetCurrentRevision pick db pageID = Inl ErrNotFound
            \<longleftrightarrow> revisions_with_author db pageID = []) \<and>
         (\<forall>r. GetCurrentRevision pick db pageID = Inr r \<longrightarrow>
            r \<in> set (revisions_with_author db pageID) \<and> PageID r = pageID \<and>
            (\<forall>r' \<in> set (revisions_with_author db pageID). RevCreatedAt r' \<le> RevCreatedAt r)) \<and>
         (\<forall>e. GetCurrentRevision pick db pageID = Inl e \<longrightarrow> e = ErrNotFound)"
proof (intro conjI allI impI)
  show "GetCurrentRevision pick db pageID = Inl ErrNotFound
            \<longleftrightarrow> revisions_with_author db pageID = []"
    using order_desc_limit1_None [of pick "revisions_with_author db pageID"]
    by (auto simp: GetCurrentRevision_def split: option.splits)
next
  fix r assume "GetCurrentRevision pick db pageID = Inr r"
  then have s: "order_desc_limit1 pick (revisions_with_author db pageID) = Some r"
    by (auto simp: GetCurrentRevision_def split: option.splits)
  from order_desc_limit1_Some [OF assms s]
  show "r \<in> set (revisions_with_author db pageID)"
    and "\<forall>r' \<in> set (revisions_with_author db pageID). RevCreatedAt r' \<le> RevCreatedAt r"
    by auto
  then show "PageID r = pageID" using revisions_with_author_page by blast
next
  fix e assume "GetCurrentRevision pick db pageID = Inl e"
  then show "e = ErrNotFound"
    by (auto simp: GetCurrentRevision_def split: option.splits)
qed

lemma set_ListPages:
  "set (ListPages db) = {p \<in> set (pages db). \<not> IsPhantom p \<and> DeletedAt p = None}"
  by (auto simp: ListPages_def)

lemma set_ListPhantoms:
  "set (ListPhantoms db) = {p \<in> set (pages db). IsPhantom p \<and> DeletedAt p = None}"
  by (auto simp: ListPhantoms_def)

lemma set_ListDeletedPages:
  "set (ListDeletedPages db) = {p \<in> set (pages db). DeletedAt p \<noteq> None}"
  by (auto simp: ListDeletedPages_def)

lemma set_ListRecentPages:
  "set (ListRecentPages db limit) \<subseteq> {p \<in> set (pages db). \<not> IsPhantom p \<and> DeletedAt p = None}"
  by (auto simp: ListRecentPages_def Let_def dest!: in_set_takeD)

lemma PageStats_live:
  "PageStats db = PageStats (db\<lparr>pages := filter (\<lambda>q. DeletedAt q = None) (pages db)\<rparr>)"
proof -
  have a: "(\<lambda>x. DeletedAt x = None \<and> IsPhantom x \<and> DeletedAt x = None)
             = (\<lambda>p. IsPhantom p \<and> DeletedAt p = None)"
    by auto
  have b: "(\<lambda>x. DeletedAt x = None \<and> \<not> IsPhantom x \<and> DeletedAt x = None)
             = (\<lambda>p. \<not> IsPhantom p \<and> DeletedAt p = None)"
    by auto
  show ?thesis by (simp add: PageStats_def a b)
qed

text \<open>
  Claim C7, as amended. For a soft-deleted page, \<open>ListPages\<close>, \<open>ListPhantoms\<close>,
  \<open>ListRecentPages\<close> and \<open>PageStats\<close> leave it out and \<open>ListDeletedPages\<close> returns it;
  \<open>GetPageBySlug\<close> and \<open>GetPageByID\<close> do not look at \<^verbatim>\<open>deleted_at\<close> and return the row, with
  its \<open>DeletedAt\<close> set (the caller decides what to do with a deleted page). Ids and slugs are
  unique in the table, as the schema demands.
\<close>

theorem soft_deleted_reads:
  assumes "p \<in> set (pages db)" and "DeletedAt p \<noteq> None"
    and "distinct (map ID (pages db))" and "distinct (map Slug (pages db))"
  shows "GetPageBySlug db (Slug p) = Inr p \<and> GetPageByID db (ID p) = Inr p \<and>
         p \<notin> set (ListPages db) \<and> p \<notin> set (ListPhantoms db) \<and>
         p \<notin> set (ListRecentPages db limit) \<and>
         PageStats db = PageStats (db\<lparr>pages := filter (\<lambda>q. DeletedAt q = None) (pages db)\<rparr>) \<and>
         p \<in> set (ListDeletedPages db)"
proof -
  have 1: "GetPageBySlug db (Slug p) = Inr p"
    using find_distinct_key [OF assms(4,1)] by (simp add: GetPageBySlug_def page_by_slug_def)
  have 2: "GetPageByID db (ID p) = Inr p"
    using find_distinct_key [OF assms(3,1)] by (simp add: GetPageByID_def page_by_id_def)
  have 3: "p \<notin> set (ListPages db)" "p \<notin> set (ListPhantoms db)"
    using assms(2) by (simp_all add: set_ListPages set_ListPhantoms)
  have 4: "p \<notin> set (ListRecentPages db limit)"
    using assms(2) set_ListRecentPages [of db limit] by auto
  have 5: "p \<in> set (ListDeletedPages db)"
    using assms(1,2) by (simp add: set_ListDeletedPages)
  from 1 2 3 4 5 PageStats_live show ?thesis by blast
qed


lemma find_update:
  assumes "distinct (map ID ps)" and "p \<in> set ps" and "ID (f p) = ID p"
  shows "find (\<lambda>q. ID q = ID p) (map (\<lambda>q. if ID q = ID p then f q else q) ps) = Some (f p)"
  using assms(1,2)
proof (induction ps)
  case Nil
  then show ?case by simp
next
  case (Cons a ps)
  show ?case
  proof (cases "ID a = ID p")
    case True
    have "p = a"
    proof (rule ccontr)
      assume "p \<noteq> a"
      with Cons.prems(2) have "p \<in> set ps" by simp
      then have "ID a \<in> ID ` set ps" using True by force
      with Cons.prems(1) show False by simp
    qed
    with True assms(3) show ?thesis by simp
  next
    case False
    then have "p \<noteq> a" by blast
    with Cons.prems have "p \<in> set ps" "distinct (map ID ps)" by simp_all
    with Cons.IH False show ?thesis by simp
  qed
qed

lemma map_ID_update:
  "(\<And>q. ID (f q) = ID q) \<Longrightarrow> map ID (map (\<lambda>q. if c q then f q else q) ps) = map ID ps"
  by (induction ps) simp_all

lemma map_of_append_new:
  "k \<notin> fst ` set xs \<Longrightarrow> map_of (xs @ [(k, v)]) k = Some v"
  by (induction xs) auto

lemma index_entry_None: "index_entry db i = None \<longleftrightarrow> i \<notin> set (map fst (pages_fts db))"
  by (simp add: index_entry_def map_of_eq_None_iff)

lemma fold_max_ge: "(a::int) \<le> fold max ids a"
proof (induction ids arbitrary: a)
  case Nil
  show ?case by simp
next
  case (Cons y ys)
  have "a \<le> max y a" by simp
  also have "\<dots> \<le> fold max ys (max y a)" by (rule Cons.IH)
  finally show ?case by simp
qed

lemma fold_max_mem: "x \<in> set ids \<Longrightarrow> (x::int) \<le> fold max ids a"
proof (induction ids arbitrary: a)
  case Nil
  then show ?case by simp
next
  case (Cons y ys)
  show ?case
  proof (cases "x = y")
    case True
    have "x \<le> max y a" using True by simp
    also have "\<dots> \<le> fold max ys (max y a)" by (rule fold_max_ge)
    finally show ?thesis by simp
  next
    case False
    with Cons.prems have "x \<in> set ys" by simp
    from Cons.IH [OF this, of "max y a"] show ?thesis by simp
  qed
qed

lemma next_rowid_fresh: "x \<in> set ids \<Longrightarrow> x < next_rowid ids seq"
  using fold_max_mem [of x ids seq] by (simp add: next_rowid_def)


lemma find_append_None: "\<forall>x \<in> set xs. \<not> P x \<Longrightarrow> find P (xs @ ys) = find P ys"
  by (induction xs) simp_all

lemma CreatePage_failure_rolls_back:
  "CreatePage db slug title content authorID now = (Inl e, db') \<Longrightarrow> db' = db"
proof -
  assume a: "CreatePage db slug title content authorID now = (Inl e, db')"
  show "db' = db"
  proof (rule ccontr)
    assume n: "db' \<noteq> db"
    from a n obtain pageID tx1 tx2 tx3 where
      "fts_insert tx2 pageID title content = Inr tx3"
      "insert_revision tx1 pageID content authorID now = Inr tx2"
      "GetPageByID tx3 pageID = Inl e"
      and src: "(case page_by_slug db slug of
              None \<Rightarrow> insert_page db slug title False None None now
            | Some existing \<Rightarrow>
                if IsPhantom existing
                then Inr (ID existing,
                          update_pages db (\<lambda>p. ID p = ID existing)
                            (\<lambda>p. p\<lparr>Title := title, IsPhantom := False, UpdatedAt := now\<rparr>))
                else Inl ErrPageExists) = Inr (pageID, tx1)"
      unfolding CreatePage_def by (auto split: sum.splits prod.splits)
    then have ins: "pageID \<in> set (map ID (pages tx1))"
      and tx2: "pages tx2 = pages tx1" and tx3: "pages tx3 = pages tx2"
      and nf: "page_by_id tx3 pageID = None"
      by (auto simp: insert_revision_def fts_insert_def GetPageByID_def Let_def
          split: if_splits option.splits)
    from nf have "pageID \<notin> set (map ID (pages tx3))"
      by (auto simp: page_by_id_def find_None_conv)
    with ins tx2 tx3 show False by simp
  qed
qed

lemma insert_page_error: "insert_page db slug title ph u pg now = Inl e \<Longrightarrow> e = ErrConstraint"
  unfolding insert_page_def Let_def by (simp split: if_splits)

lemma insert_revision_error: "insert_revision d i c a now = Inl e \<Longrightarrow> e = ErrConstraint"
  unfolding insert_revision_def Let_def by (simp split: if_splits)

lemma fts_insert_error: "fts_insert d i t c = Inl e \<Longrightarrow> e = ErrConstraint"
  unfolding fts_insert_def by (simp split: if_splits)

lemma GetPageByID_error: "GetPageByID d i = Inl e \<Longrightarrow> e = ErrNotFound"
  unfolding GetPageByID_def by (simp split: option.splits)

lemma CreatePage_tail_error:
  assumes "(case insert_revision tx1 i c a now of
             Inl e \<Rightarrow> (Inl e, db)
           | Inr tx2 \<Rightarrow>
               (case fts_insert tx2 i t c of
                  Inl e \<Rightarrow> (Inl e, db)
                | Inr tx3 \<Rightarrow> (GetPageByID tx3 i, tx3))) = (Inl e, out)"
  shows "e \<noteq> ErrPageExists"
proof (cases "insert_revision tx1 i c a now")
  case (Inl e')
  with assms insert_revision_error [OF Inl] show ?thesis by simp
next
  case (Inr tx2)
  show ?thesis
  proof (cases "fts_insert tx2 i t c")
    case (Inl e')
    with assms Inr fts_insert_error [OF Inl] show ?thesis by simp
  next
    case (Inr tx3)
    with assms \<open>insert_revision tx1 i c a now = Inr tx2\<close> have "GetPageByID tx3 i = Inl e" by auto
    from GetPageByID_error [OF this] show ?thesis by simp
  qed
qed

lemma CreatePage_ErrPageExists_iff:
  "fst (CreatePage db slug title content a now) = Inl ErrPageExists
     \<longleftrightarrow> (\<exists>p. page_by_slug db slug = Some p \<and> \<not> IsPhantom p)"
proof
  assume "\<exists>p. page_by_slug db slug = Some p \<and> \<not> IsPhantom p"
  then show "fst (CreatePage db slug title content a now) = Inl ErrPageExists"
    by (auto simp: CreatePage_def)
next
  assume a: "fst (CreatePage db slug title content a now) = Inl ErrPageExists"
  then obtain out where c: "CreatePage db slug title content a now = (Inl ErrPageExists, out)"
    by (metis prod.collapse)
  show "\<exists>p. page_by_slug db slug = Some p \<and> \<not> IsPhantom p"
  proof (cases "page_by_slug db slug")
    case None
    show ?thesis
    proof (cases "insert_page db slug title False None None now")
      case (Inl e)
      with None c insert_page_error [OF Inl] show ?thesis by (simp add: CreatePage_def)
    next
      case (Inr x)
      obtain i tx1 where x: "x = (i, tx1)" by (cases x)
      from c None Inr x have
        "(case insert_revision tx1 i content a now of
             Inl e \<Rightarrow> (Inl e, db)
           | Inr tx2 \<Rightarrow>
               (case fts_insert tx2 i title content of
                  Inl e \<Rightarrow> (Inl e, db)
                | Inr tx3 \<Rightarrow> (GetPageByID tx3 i, tx3))) = (Inl ErrPageExists, out)"
        by (simp add: CreatePage_def)
      from CreatePage_tail_error [OF this] show ?thesis by simp
    qed
  next
    case (Some p)
    show ?thesis
    proof (cases "IsPhantom p")
      case False
      with Some show ?thesis by simp
    next
      case True
      from c Some True have
        "(case insert_revision (update_pages db (\<lambda>q. ID q = ID p)
                 (\<lambda>q. q\<lparr>Title := title, IsPhantom := False, UpdatedAt := now\<rparr>))
               (ID p) content a now of
             Inl e \<Rightarrow> (Inl e, db)
           | Inr tx2 \<Rightarrow>
               (case fts_insert tx2 (ID p) title content of
                  Inl e \<Rightarrow> (Inl e, db)
                | Inr tx3 \<Rightarrow> (GetPageByID tx3 (ID p), tx3))) = (Inl ErrPageExists, out)"
        by (simp add: CreatePage_def)
      from CreatePage_tail_error [OF this] show ?thesis by simp
    qed
  qed
qed

text \<open>
  \<open>CreatePage\<close>, case by case: (1) a real page with the slug makes it fail with
  \<open>ErrPageExists\<close>; (2) a phantom with the slug is converted: the row keeps its id, slug and
  both citation fields, gets the title, \<open>IsPhantom = False\<close> and the new \<open>UpdatedAt\<close>, exactly
  one revision is inserted and the index entry is added; (3) with no row for the slug a fresh
  page row, its first revision and the index entry are inserted; (4) whenever the call
  returns an error the database is the one before the call; (5) the error is
  \<open>ErrPageExists\<close> exactly when a real page has the slug. Cases (2) and (3) succeed when
  the author is a user and the index has no entry under the page's id.
\<close>

theorem CreatePage_cases:
  "(\<forall>p. page_by_slug db slug = Some p \<and> \<not> IsPhantom p \<longrightarrow>
        CreatePage db slug title content authorID now = (Inl ErrPageExists, db)) \<and>
   (\<forall>p. page_by_slug db slug = Some p \<and> IsPhantom p \<and> distinct (map ID (pages db)) \<and>
        authorID \<in> set (map UserID (users db)) \<and> index_entry db (ID p) = None \<longrightarrow>
        (\<exists>db' r. CreatePage db slug title content authorID now
                    = (Inr (p\<lparr>Title := title, IsPhantom := False, UpdatedAt := now\<rparr>), db') \<and>
            pages db' = map (\<lambda>q. if ID q = ID p
                                   then q\<lparr>Title := title, IsPhantom := False, UpdatedAt := now\<rparr>
                                   else q) (pages db) \<and>
            revisions db' = revisions db @ [r] \<and>
            PageID r = ID p \<and> Content r = content \<and> AuthorID r = authorID \<and>
            RevCreatedAt r = now \<and>
            pages_fts db' = pages_fts db @ [(ID p, title, content)])) \<and>
   (page_by_slug db slug = None \<and> authorID \<in> set (map UserID (users db)) \<and>
      set (map fst (pages_fts db)) \<subseteq> set (map ID (pages db)) \<longrightarrow>
        (\<exists>db' p' r. CreatePage db slug title content authorID now = (Inr p', db') \<and>
            Slug p' = slug \<and> Title p' = title \<and> \<not> IsPhantom p' \<and> DeletedAt p' = None \<and>
            FirstCitedByUserID p' = None \<and> FirstCitedInPageID p' = None \<and>
            ID p' \<notin> set (map ID (pages db)) \<and>
            pages db' = pages db @ [p'] \<and>
            revisions db' = revisions db @ [r] \<and>
            PageID r = ID p' \<and> Content r = content \<and> AuthorID r = authorID \<and>
            RevCreatedAt r = now \<and>
            pages_fts db' = pages_fts db @ [(ID p', title, content)])) \<and>
   (\<forall>e db'. CreatePage db slug title content authorID now = (Inl e, db') \<longrightarrow> db' = db) \<and>
   (fst (CreatePage db slug title content authorID now) = Inl ErrPageExists
      \<longleftrightarrow> (\<exists>p. page_by_slug db slug = Some p \<and> \<not> IsPhantom p))"
proof (intro conjI allI impI)
  show "fst (CreatePage db slug title content authorID now) = Inl ErrPageExists
      \<longleftrightarrow> (\<exists>p. page_by_slug db slug = Some p \<and> \<not> IsPhantom p)"
    by (rule CreatePage_ErrPageExists_iff)
next
  fix p assume "page_by_slug db slug = Some p \<and> \<not> IsPhantom p"
  then show "CreatePage db slug title content authorID now = (Inl ErrPageExists, db)"
    by (simp add: CreatePage_def)
next
  fix e db' assume "CreatePage db slug title content authorID now = (Inl e, db')"
  then show "db' = db" by (rule CreatePage_failure_rolls_back)
next
  fix p
  assume a: "page_by_slug db slug = Some p \<and> IsPhantom p \<and> distinct (map ID (pages db)) \<and>
        authorID \<in> set (map UserID (users db)) \<and> index_entry db (ID p) = None"
  define f where "f = (\<lambda>q::Page. q\<lparr>Title := title, IsPhantom := False, UpdatedAt := now\<rparr>)"
  define tx1 where "tx1 = update_pages db (\<lambda>q. ID q = ID p) f"
  define r where "r = \<lparr>RevID = next_rowid (map RevID (revisions db)) (revisions_seq db),
      PageID = ID p, Content = content, AuthorID = authorID, RevCreatedAt = now,
      AuthorUsername = []\<rparr>"
  define tx2 where "tx2 = tx1\<lparr>revisions := revisions db @ [r], revisions_seq := RevID r\<rparr>"
  define tx3 where "tx3 = tx2\<lparr>pages_fts := pages_fts db @ [(ID p, title, content)]\<rparr>"
  from a have pin: "p \<in> set (pages db)"
    using find_Some_mem [of "\<lambda>p. Slug p = slug" "pages db" p] by (simp add: page_by_slug_def)
  have pg1: "pages tx1 = map (\<lambda>q. if ID q = ID p then f q else q) (pages db)"
    and u1: "users tx1 = users db" and r1: "revisions tx1 = revisions db"
    and s1: "revisions_seq tx1 = revisions_seq db" and f1: "pages_fts tx1 = pages_fts db"
    by (simp_all add: tx1_def update_pages_def)
  have ids1: "map ID (pages tx1) = map ID (pages db)"
    unfolding pg1 by (rule map_ID_update) (simp add: f_def)
  have i2: "insert_revision tx1 (ID p) content authorID now = Inr tx2"
    using pin a by (simp add: insert_revision_def ids1 u1 r1 s1 Let_def tx2_def r_def)
  have nin: "ID p \<notin> set (map fst (pages_fts db))"
    using a by (simp add: index_entry_None)
  have i3: "fts_insert tx2 (ID p) title content = Inr tx3"
    using nin by (simp add: fts_insert_def tx2_def tx3_def f1)
  have pg3: "pages tx3 = map (\<lambda>q. if ID q = ID p then f q else q) (pages db)"
    by (simp add: tx3_def tx2_def pg1)
  have "find (\<lambda>q. ID q = ID p) (map (\<lambda>q. if ID q = ID p then f q else q) (pages db)) = Some (f p)"
    using a pin by (intro find_update) (simp_all add: f_def)
  then have g: "GetPageByID tx3 (ID p) = Inr (f p)"
    by (simp add: GetPageByID_def page_by_id_def pg3)
  have res: "CreatePage db slug title content authorID now = (Inr (f p), tx3)"
    using a i2 i3 g by (simp add: CreatePage_def tx1_def f_def)
  have "CreatePage db slug title content authorID now = (Inr (f p), tx3) \<and>
        pages tx3 = map (\<lambda>q. if ID q = ID p then f q else q) (pages db) \<and>
        revisions tx3 = revisions db @ [r] \<and>
        PageID r = ID p \<and> Content r = content \<and> AuthorID r = authorID \<and> RevCreatedAt r = now \<and>
        pages_fts tx3 = pages_fts db @ [(ID p, title, content)]"
    using res pg3 by (simp add: tx3_def tx2_def r_def)
  then show "\<exists>db' r. CreatePage db slug title content authorID now
                    = (Inr (p\<lparr>Title := title, IsPhantom := False, UpdatedAt := now\<rparr>), db') \<and>
            pages db' = map (\<lambda>q. if ID q = ID p
                                   then q\<lparr>Title := title, IsPhantom := False, UpdatedAt := now\<rparr>
                                   else q) (pages db) \<and>
            revisions db' = revisions db @ [r] \<and>
            PageID r = ID p \<and> Content r = content \<and> AuthorID r = authorID \<and>
            RevCreatedAt r = now \<and>
            pages_fts db' = pages_fts db @ [(ID p, title, content)]"
    unfolding f_def by blast
next
  assume a: "page_by_slug db slug = None \<and> authorID \<in> set (map UserID (users db)) \<and>
      set (map fst (pages_fts db)) \<subseteq> set (map ID (pages db))"
  define i where "i = next_rowid (map ID (pages db)) (pages_seq db)"
  define p' where "p' = \<lparr>ID = i, Slug = slug, Title = title, IsPhantom = False,
                     FirstCitedByUserID = None, FirstCitedInPageID = None,
                     DeletedAt = None, CreatedAt = now, UpdatedAt = now\<rparr>"
  define tx1 where "tx1 = db\<lparr>pages := pages db @ [p'], pages_seq := i\<rparr>"
  define r where "r = \<lparr>RevID = next_rowid (map RevID (revisions db)) (revisions_seq db),
      PageID = i, Content = content, AuthorID = authorID, RevCreatedAt = now,
      AuthorUsername = []\<rparr>"
  define tx2 where "tx2 = tx1\<lparr>revisions := revisions db @ [r], revisions_seq := RevID r\<rparr>"
  define tx3 where "tx3 = tx2\<lparr>pages_fts := pages_fts db @ [(i, title, content)]\<rparr>"
  from a have ns: "slug \<notin> set (map Slug (pages db))"
    by (auto simp: page_by_slug_def find_None_conv)
  have fresh: "i \<notin> set (map ID (pages db))"
    using next_rowid_fresh [of i "map ID (pages db)" "pages_seq db"] by (auto simp: i_def)
  have i1: "insert_page db slug title False None None now = Inr (i, tx1)"
    using ns by (simp add: insert_page_def Let_def i_def tx1_def p'_def)
  have i2: "insert_revision tx1 i content authorID now = Inr tx2"
    using a by (simp add: insert_revision_def tx1_def Let_def tx2_def r_def p'_def)
  have nin: "i \<notin> set (map fst (pages_fts db))" using fresh a by blast
  have i3: "fts_insert tx2 i title content = Inr tx3"
    using nin by (simp add: fts_insert_def tx2_def tx3_def tx1_def)
  have pg3: "pages tx3 = pages db @ [p']"
    by (simp add: tx3_def tx2_def tx1_def)
  have "find (\<lambda>q. ID q = i) (pages db @ [p']) = find (\<lambda>q. ID q = i) [p']"
    using fresh by (intro find_append_None) auto
  then have g: "GetPageByID tx3 i = Inr p'"
    by (simp add: GetPageByID_def page_by_id_def pg3 p'_def)
  have res: "CreatePage db slug title content authorID now = (Inr p', tx3)"
    using a i1 i2 i3 g by (simp add: CreatePage_def)
  have "CreatePage db slug title content authorID now = (Inr p', tx3) \<and>
            Slug p' = slug \<and> Title p' = title \<and> \<not> IsPhantom p' \<and> DeletedAt p' = None \<and>
            FirstCitedByUserID p' = None \<and> FirstCitedInPageID p' = None \<and>
            ID p' \<notin> set (map ID (pages db)) \<and>
            pages tx3 = pages db @ [p'] \<and>
            revisions tx3 = revisions db @ [r] \<and>
            PageID r = ID p' \<and> Content r = content \<and> AuthorID r = authorID \<and>
            RevCreatedAt r = now \<and>
            pages_fts tx3 = pages_fts db @ [(ID p', title, content)]"
    using res pg3 fresh by (simp add: tx3_def tx2_def tx1_def r_def p'_def)
  then show "\<exists>db' p' r. CreatePage db slug title content authorID now = (Inr p', db') \<and>
            Slug p' = slug \<and> Title p' = title \<and> \<not> IsPhantom p' \<and> DeletedAt p' = None \<and>
            FirstCitedByUserID p' = None \<and> FirstCitedInPageID p' = None \<and>
            ID p' \<notin> set (map ID (pages db)) \<and>
            pages db' = pages db @ [p'] \<and>
            revisions db' = revisions db @ [r] \<and>
            PageID r = ID p' \<and> Content r = content \<and> AuthorID r = authorID \<and>
            RevCreatedAt r = now \<and>
            pages_fts db' = pages_fts db @ [(ID p', title, content)]"
    by blast
qed

lemmas store_defs = run_def empty_db_def CreatePage_def UpdatePage_def CreatePhantom_def
  SoftDeletePage_def RestorePage_def GetPageBySlug_def GetPageByID_def page_by_slug_def
  page_by_id_def insert_page_def insert_revision_def fts_insert_def fts_delete_def
  update_pages_def next_rowid_def order_desc_limit1_def newest_def first_row_def
  GetCurrentRevision_def revisions_with_author_def index_entry_def PageExists_def Let_def

lemma db_a_eq:
  "db_a = \<lparr>users = demo_users,
           pages = [\<lparr>ID = 1, Slug = gostr ''a'', Title = gostr ''A'', IsPhantom = False,
                     FirstCitedByUserID = None, FirstCitedInPageID = None,
                     DeletedAt = None, CreatedAt = 10, UpdatedAt = 10\<rparr>],
           revisions = [\<lparr>RevID = 1, PageID = 1, Content = gostr ''x'', AuthorID = 1,
                         RevCreatedAt = 10, AuthorUsername = []\<rparr>],
           pages_fts = [(1, gostr ''A'', gostr ''x'')], pages_seq = 1, revisions_seq = 1\<rparr>"
  by (simp add: db_a_def demo_users_def store_defs gostr_def)

lemma db_ab_eq:
  "db_ab = \<lparr>users = demo_users,
           pages = [\<lparr>ID = 1, Slug = gostr ''a'', Title = gostr ''A'', IsPhantom = False,
                     FirstCitedByUserID = None, FirstCitedInPageID = None,
                     DeletedAt = None, CreatedAt = 10, UpdatedAt = 10\<rparr>,
                    \<lparr>ID = 2, Slug = gostr ''b'', Title = gostr ''B'', IsPhantom = True,
                     FirstCitedByUserID = Some 1, FirstCitedInPageID = Some 1,
                     DeletedAt = None, CreatedAt = 11, UpdatedAt = 11\<rparr>],
           revisions = [\<lparr>RevID = 1, PageID = 1, Content = gostr ''x'', AuthorID = 1,
                         RevCreatedAt = 10, AuthorUsername = []\<rparr>],
           pages_fts = [(1, gostr ''A'', gostr ''x'')], pages_seq = 2, revisions_seq = 1\<rparr>"
  by (simp add: db_ab_def db_a_eq demo_users_def store_defs gostr_def)

lemma db_a_deleted_eq:
  "db_a_deleted = \<lparr>users = demo_users,
           pages = [\<lparr>ID = 1, Slug = gostr ''a'', Title = gostr ''A'', IsPhantom = False,
                     FirstCitedByUserID = None, FirstCitedInPageID = None,
                     DeletedAt = Some 20, CreatedAt = 10, UpdatedAt = 20\<rparr>,
                    \<lparr>ID = 2, Slug = gostr ''b'', Title = gostr ''B'', IsPhantom = True,
                     FirstCitedByUserID = Some 1, FirstCitedInPageID = Some 1,
                     DeletedAt = None, CreatedAt = 11, UpdatedAt = 11\<rparr>],
           revisions = [\<lparr>RevID = 1, PageID = 1, Content = gostr ''x'', AuthorID = 1,
                         RevCreatedAt = 10, AuthorUsername = []\<rparr>],
           pages_fts = [], pages_seq = 2, revisions_seq = 1\<rparr>"
  by (simp add: db_a_deleted_def db_ab_eq demo_users_def store_defs gostr_def)

lemma db_b_deleted_eq:
  "db_b_deleted = \<lparr>users = demo_users,
           pages = [\<lparr>ID = 1, Slug = gostr ''a'', Title = gostr ''A'', IsPhantom = False,
                     FirstCitedByUserID = None, FirstCitedInPageID = None,
                     DeletedAt = None, CreatedAt = 10, UpdatedAt = 10\<rparr>,
                    \<lparr>ID = 2, Slug = gostr ''b'', Title = gostr ''B'', IsPhantom = True,
                     FirstCitedByUserID = Some 1, FirstCitedInPageID = Some 1,
                     DeletedAt = Some 20, CreatedAt = 11, UpdatedAt = 20\<rparr>],
           revisions = [\<lparr>RevID = 1, PageID = 1, Content = gostr ''x'', AuthorID = 1,
                         RevCreatedAt = 10, AuthorUsername = []\<rparr>],
           pages_fts = [(1, gostr ''A'', gostr ''x'')], pages_seq = 2, revisions_seq = 1\<rparr>"
  by (simp add: db_b_deleted_def db_ab_eq demo_users_def store_defs gostr_def)

lemma db_tie_eq:
  "db_tie = \<lparr>users = demo_users,
           pages = [\<lparr>ID = 1, Slug = gostr ''a'', Title = gostr ''A'', IsPhantom = False,
                     FirstCitedByUserID = None, FirstCitedInPageID = None,
                     DeletedAt = None, CreatedAt = 10, UpdatedAt = 10\<rparr>],
           revisions = [\<lparr>RevID = 1, PageID = 1, Content = gostr ''x'', AuthorID = 1,
                         RevCreatedAt = 10, AuthorUsername = []\<rparr>,
                        \<lparr>RevID = 2, PageID = 1, Content = gostr ''y'', AuthorID = 2,
                         RevCreatedAt = 10, AuthorUsername = []\<rparr>],
           pages_fts = [(1, gostr ''A'', gostr ''y'')], pages_seq = 1, revisions_seq = 2\<rparr>"
  by (simp add: db_tie_def db_a_eq demo_users_def store_defs gostr_def)

lemma tie_rule_first_row: "tie_rule first_row"
  by (simp add: tie_rule_def first_row_def)

theorem CreatePhantom_idempotent_witness:
  "row_b \<in> set (pages db_ab) \<and> Slug row_b = gostr ''b'' \<and>
   CreatePhantom db_ab (gostr ''b'') (gostr ''Another Title'') 2 1 99 = (Inr row_b, db_ab)"
proof -
  have h: "\<exists>p \<in> set (pages db_ab). Slug p = gostr ''b''"
    by (simp add: db_ab_eq gostr_def)
  have u: "\<And>p. p \<in> set (pages db_ab) \<and> Slug p = gostr ''b'' \<Longrightarrow> p = row_b"
    by (auto simp: db_ab_eq gostr_def row_b_def)
  from CreatePhantom_idempotent [of db_ab "gostr ''b''" "gostr ''Another Title''" 2 1 99 "[]" 2 1] h
  obtain p where "p \<in> set (pages db_ab)" "Slug p = gostr ''b''"
    "CreatePhantom db_ab (gostr ''b'') (gostr ''Another Title'') 2 1 99 = (Inr p, db_ab)"
    by blast
  with u [of p] show ?thesis by simp
qed

text \<open>
  Two revisions of page 1 carry the same \<^verbatim>\<open>created_at\<close>; with the engine that returns the row
  stored first, the current revision is the one with the smaller id.
\<close>

theorem GetCurrentRevision_tie_counterexample:
  "revisions db_tie = [rev_x, rev_y] \<and> RevCreatedAt rev_x = RevCreatedAt rev_y \<and>
   RevID rev_x < RevID rev_y \<and>
   GetCurrentRevision first_row db_tie 1 = Inr (rev_x\<lparr>AuthorUsername := gostr ''ann''\<rparr>)"
  by (simp add: db_tie_eq rev_x_def rev_y_def demo_users_def GetCurrentRevision_def
      revisions_with_author_def order_desc_limit1_def newest_def first_row_def gostr_def)

theorem GetCurrentRevision_latest_witness:
  "tie_rule first_row \<and>
   GetCurrentRevision first_row db_a 1 = Inr (rev_x\<lparr>AuthorUsername := gostr ''ann''\<rparr>) \<and>
   rev_x\<lparr>AuthorUsername := gostr ''ann''\<rparr> \<in> set (revisions_with_author db_a 1) \<and>
   GetCurrentRevision first_row db_a 2 = Inl ErrNotFound"
proof -
  have t: "tie_rule first_row" by (simp add: tie_rule_def first_row_def)
  have e: "GetCurrentRevision first_row db_a 1 = Inr (rev_x\<lparr>AuthorUsername := gostr ''ann''\<rparr>)"
    by (simp add: db_a_eq rev_x_def demo_users_def GetCurrentRevision_def
      revisions_with_author_def order_desc_limit1_def newest_def first_row_def gostr_def)
  have n: "revisions_with_author db_a 2 = []"
    by (simp add: db_a_eq revisions_with_author_def)
  from GetCurrentRevision_latest [OF t, of db_a 1] e
  have "rev_x\<lparr>AuthorUsername := gostr ''ann''\<rparr> \<in> set (revisions_with_author db_a 1)"
    by blast
  moreover from GetCurrentRevision_latest [OF t, of db_a 2] n
  have "GetCurrentRevision first_row db_a 2 = Inl ErrNotFound" by blast
  ultimately show ?thesis using t e by blast
qed

text \<open>
  After page \<open>a\<close> is soft-deleted, both lookups still return its row.
\<close>

theorem soft_deleted_lookup_counterexample:
  "GetPageBySlug db_a_deleted (gostr ''a'') = Inr row_a_deleted \<and>
   GetPageByID db_a_deleted 1 = Inr row_a_deleted \<and>
   DeletedAt row_a_deleted = Some 20"
  by (simp add: db_a_deleted_eq row_a_deleted_def GetPageBySlug_def GetPageByID_def
      page_by_slug_def page_by_id_def gostr_def)

theorem soft_deleted_reads_witness:
  "row_a_deleted \<in> set (pages db_a_deleted) \<and> DeletedAt row_a_deleted \<noteq> None \<and>
   distinct (map ID (pages db_a_deleted)) \<and> distinct (map Slug (pages db_a_deleted)) \<and>
   GetPageBySlug db_a_deleted (gostr ''a'') = Inr row_a_deleted \<and>
   GetPageByID db_a_deleted 1 = Inr row_a_deleted \<and>
   row_a_deleted \<notin> set (ListPages db_a_deleted) \<and>
   row_a_deleted \<notin> set (ListPhantoms db_a_deleted) \<and>
   row_a_deleted \<notin> set (ListRecentPages db_a_deleted 10) \<and>
   PageStats db_a_deleted = (0, 1) \<and>
   row_a_deleted \<in> set (ListDeletedPages db_a_deleted)"
proof -
  have h: "row_a_deleted \<in> set (pages db_a_deleted)" "DeletedAt row_a_deleted \<noteq> None"
    "distinct (map ID (pages db_a_deleted))" "distinct (map Slug (pages db_a_deleted))"
    by (simp_all add: db_a_deleted_eq row_a_deleted_def gostr_def)
  have s: "Slug row_a_deleted = gostr ''a''" "ID row_a_deleted = 1"
    by (simp_all add: row_a_deleted_def)
  have st: "PageStats (db_a_deleted\<lparr>pages := filter (\<lambda>q. DeletedAt q = None) (pages db_a_deleted)\<rparr>)
            = (0, 1)"
    by (simp add: db_a_deleted_eq PageStats_def)
  from soft_deleted_reads [OF h, of 10] h s st show ?thesis by simp
qed



theorem CreatePage_cases_witness:
  "page_by_slug db_ab (gostr ''b'') = Some row_b \<and> IsPhantom row_b \<and>
   distinct (map ID (pages db_ab)) \<and> 2 \<in> set (map UserID (users db_ab)) \<and>
   index_entry db_ab (ID row_b) = None \<and>
   fst (CreatePage db_ab (gostr ''b'') (gostr ''Bee'') (gostr ''text'') 2 40)
     = Inr (row_b\<lparr>Title := gostr ''Bee'', IsPhantom := False, UpdatedAt := 40\<rparr>) \<and>
   CreatePage db_ab (gostr ''a'') (gostr ''Again'') (gostr ''text'') 2 40 = (Inl ErrPageExists, db_ab) \<and>
   page_by_slug db_ab (gostr ''c'') = None \<and>
   set (map fst (pages_fts db_ab)) \<subseteq> set (map ID (pages db_ab)) \<and>
   (\<exists>p'. fst (CreatePage db_ab (gostr ''c'') (gostr ''C'') (gostr ''text'') 2 40) = Inr p' \<and>
         Slug p' = gostr ''c'' \<and> \<not> IsPhantom p') \<and>
   CreatePage db_ab (gostr ''c'') (gostr ''C'') (gostr ''text'') 9 40 = (Inl ErrConstraint, db_ab)"
proof -
  have b: "page_by_slug db_ab (gostr ''b'') = Some row_b" "IsPhantom row_b"
    "distinct (map ID (pages db_ab))" "2 \<in> set (map UserID (users db_ab))"
    "index_entry db_ab (ID row_b) = None"
    by (simp_all add: db_ab_eq row_b_def page_by_slug_def index_entry_def demo_users_def gostr_def)
  have a: "\<exists>p. page_by_slug db_ab (gostr ''a'') = Some p \<and> \<not> IsPhantom p"
    by (simp add: db_ab_eq page_by_slug_def gostr_def)
  have c: "page_by_slug db_ab (gostr ''c'') = None"
    "set (map fst (pages_fts db_ab)) \<subseteq> set (map ID (pages db_ab))"
    by (simp_all add: db_ab_eq page_by_slug_def gostr_def)
  have f: "fst (CreatePage db_ab (gostr ''c'') (gostr ''C'') (gostr ''text'') 9 40) = Inl ErrConstraint"
    by (simp add: db_ab_eq store_defs demo_users_def gostr_def)
  note T = CreatePage_cases
  from T [of db_ab "gostr ''b''" "gostr ''Bee''" "gostr ''text''" 2 40] b
  have 1: "fst (CreatePage db_ab (gostr ''b'') (gostr ''Bee'') (gostr ''text'') 2 40)
     = Inr (row_b\<lparr>Title := gostr ''Bee'', IsPhantom := False, UpdatedAt := 40\<rparr>)"
    by (metis (no_types, lifting) fst_conv)
  from T [of db_ab "gostr ''a''" "gostr ''Again''" "gostr ''text''" 2 40] a
  have 2: "CreatePage db_ab (gostr ''a'') (gostr ''Again'') (gostr ''text'') 2 40
             = (Inl ErrPageExists, db_ab)"
    by blast
  from T [of db_ab "gostr ''c''" "gostr ''C''" "gostr ''text''" 2 40] c b(4)
  have 3: "\<exists>p'. fst (CreatePage db_ab (gostr ''c'') (gostr ''C'') (gostr ''text'') 2 40) = Inr p' \<and>
         Slug p' = gostr ''c'' \<and> \<not> IsPhantom p'"
    by (metis (no_types, lifting) fst_conv)
  from T [of db_ab "gostr ''c''" "gostr ''C''" "gostr ''text''" 9 40] f
  have 4: "CreatePage db_ab (gostr ''c'') (gostr ''C'') (gostr ''text'') 9 40 = (Inl ErrConstraint, db_ab)"
    by (metis (no_types, lifting) prod.collapse)
  from b c 1 2 3 4 show ?thesis by blast
qed

section \<open>Properties of the save path\<close>

lemma processWikiLinks_link_step:
  "processWikiLinks db links userID pageID now
     = foldl (link_step links userID pageID now) db (UniqueTargets links)"
  unfolding processWikiLinks_def link_step_def ..

lemma PageExists_conv: "PageExists db t \<longleftrightarrow> page_by_slug db t \<noteq> None"
proof -
  have "filter (\<lambda>p. Slug p = t) (pages db) = [] \<longleftrightarrow> (\<forall>p \<in> set (pages db). Slug p \<noteq> t)"
    by (simp add: filter_empty_conv)
  then show ?thesis
    by (simp add: PageExists_def page_by_slug_def find_None_conv)
qed

lemma CreatePhantom_new:
  assumes "page_by_slug d t = None" and "u \<in> set (map UserID (users d))"
    and "pg \<in> set (map ID (pages d))"
  shows "\<exists>q. pages (snd (CreatePhantom d t title u pg now)) = pages d @ [q] \<and>
             Slug q = t \<and> Title q = title \<and> IsPhantom q \<and>
             FirstCitedByUserID q = Some u \<and> FirstCitedInPageID q = Some pg \<and>
             users (snd (CreatePhantom d t title u pg now)) = users d"
proof -
  from assms(1) have ns: "t \<notin> set (map Slug (pages d))"
    by (auto simp: page_by_slug_def find_None_conv)
  then obtain i d' where i: "insert_page d t title True (Some u) (Some pg) now = Inr (i, d')"
    using assms(2,3) by (simp add: insert_page_def Let_def)
  from insert_page_pages [OF i] assms(1) i show ?thesis
    by (auto simp: CreatePhantom_def GetPageBySlug_def)
qed

lemma CreatePhantom_slug:
  "\<exists>new. pages (snd (CreatePhantom d x title u pg now)) = pages d @ new \<and>
         (\<forall>q \<in> set new. Slug q = x) \<and>
         users (snd (CreatePhantom d x title u pg now)) = users d"
proof (cases "page_by_slug d x")
  case (Some p)
  then show ?thesis by (simp add: CreatePhantom_existing)
next
  case None
  show ?thesis
  proof (cases "insert_page d x title True (Some u) (Some pg) now")
    case (Inl e)
    with None show ?thesis by (simp add: CreatePhantom_def GetPageBySlug_def)
  next
    case (Inr r)
    obtain i d' where r: "r = (i, d')" by (cases r)
    from insert_page_pages [OF Inr [unfolded r]] None Inr r show ?thesis
      by (auto simp: CreatePhantom_def GetPageBySlug_def)
  qed
qed

lemma link_step_slug:
  "\<exists>new. pages (link_step links u pg now d x) = pages d @ new \<and> (\<forall>q \<in> set new. Slug q = x) \<and>
         users (link_step links u pg now d x) = users d"
proof (cases "PageExists d x")
  case True
  then show ?thesis by (simp add: link_step_def)
next
  case False
  then show ?thesis
    using CreatePhantom_slug [of d x _ u pg now] by (simp add: link_step_def Let_def)
qed

lemma page_by_slug_append:
  "page_by_slug d t = Some p \<Longrightarrow> pages d' = pages d @ new \<Longrightarrow> page_by_slug d' t = Some p"
  by (simp add: page_by_slug_def find_append_Some)

lemma page_by_slug_append_other:
  "page_by_slug d t = None \<Longrightarrow> pages d' = pages d @ new \<Longrightarrow> \<forall>q \<in> set new. Slug q \<noteq> t \<Longrightarrow>
     page_by_slug d' t = None"
  by (auto simp: page_by_slug_def find_None_conv)

lemma link_steps_keep:
  "page_by_slug d t = Some p \<Longrightarrow>
     page_by_slug (foldl (link_step links u pg now) d ts) t = Some p"
proof (induction ts arbitrary: d)
  case Nil
  then show ?case by simp
next
  case (Cons x ts)
  from link_step_slug [of links u pg now d x] obtain new where
    "pages (link_step links u pg now d x) = pages d @ new" by blast
  with Cons.prems have "page_by_slug (link_step links u pg now d x) t = Some p"
    by (rule page_by_slug_append)
  from Cons.IH [OF this] show ?case by simp
qed

lemma processWikiLinks_keeps:
  "page_by_slug d t = Some p \<Longrightarrow> page_by_slug (processWikiLinks d links u pg now) t = Some p"
  unfolding processWikiLinks_link_step by (rule link_steps_keep)

lemma link_steps_create:
  assumes l: "find (\<lambda>l. Target l = t) links = Some l"
  shows "page_by_slug d t = None \<Longrightarrow> u \<in> set (map UserID (users d)) \<Longrightarrow>
         pg \<in> set (map ID (pages d)) \<Longrightarrow> t \<in> set ts \<Longrightarrow>
         \<exists>p. page_by_slug (foldl (link_step links u pg now) d ts) t = Some p \<and>
             Slug p = t \<and> Title p = DisplayText l \<and> IsPhantom p \<and>
             FirstCitedByUserID p = Some u \<and> FirstCitedInPageID p = Some pg"
proof (induction ts arbitrary: d)
  case Nil
  then show ?case by simp
next
  case (Cons x ts)
  show ?case
  proof (cases "x = t")
    case True
    have ne: "\<not> PageExists d t" using Cons.prems(1) by (simp add: PageExists_conv)
    from CreatePhantom_new [OF Cons.prems(1,2,3), of "DisplayText l" now]
    obtain q where q: "pages (snd (CreatePhantom d t (DisplayText l) u pg now)) = pages d @ [q]"
      "Slug q = t" "Title q = DisplayText l" "IsPhantom q"
      "FirstCitedByUserID q = Some u" "FirstCitedInPageID q = Some pg"
      by blast
    have st: "link_step links u pg now d t = snd (CreatePhantom d t (DisplayText l) u pg now)"
      unfolding link_step_def Let_def by (simp only: ne if_False l option.case)
    have "\<forall>p \<in> set (pages d). Slug p \<noteq> t"
      using Cons.prems(1) by (auto simp: page_by_slug_def find_None_conv)
    then have "find (\<lambda>p. Slug p = t) (pages d @ [q]) = find (\<lambda>p. Slug p = t) [q]"
      by (intro find_append_None) auto
    then have "page_by_slug (link_step links u pg now d t) t = Some q"
      unfolding page_by_slug_def st q(1) using q(2) by simp
    then have "page_by_slug (foldl (link_step links u pg now) (link_step links u pg now d t) ts) t
                 = Some q"
      by (rule link_steps_keep)
    then have "page_by_slug (foldl (link_step links u pg now) d (x # ts)) t = Some q"
      using True by simp
    with q(2-6) show ?thesis by blast
  next
    case False
    with Cons.prems(4) have tin: "t \<in> set ts" by simp
    from link_step_slug [of links u pg now d x] obtain new where
      new: "pages (link_step links u pg now d x) = pages d @ new" "\<forall>q \<in> set new. Slug q = x"
        "users (link_step links u pg now d x) = users d"
      by blast
    have "\<forall>q \<in> set new. Slug q \<noteq> t" using new(2) False by simp
    with Cons.prems(1) new(1) have 1: "page_by_slug (link_step links u pg now d x) t = None"
      by (rule page_by_slug_append_other)
    have 2: "u \<in> set (map UserID (users (link_step links u pg now d x)))"
      using Cons.prems(2) new(3) by simp
    have 3: "pg \<in> set (map ID (pages (link_step links u pg now d x)))"
      using Cons.prems(3) new(1) by simp
    from Cons.IH [OF 1 2 3 tin] show ?thesis by simp
  qed
qed

lemma UniqueTargets_acc:
  "set (foldl (\<lambda>targets link. if Target link \<in> set targets then targets
                            else targets @ [Target link]) acc links)
     = set acc \<union> Target ` set links"
  by (induction links arbitrary: acc) auto

lemma set_UniqueTargets: "set (UniqueTargets links) = Target ` set links"
  using UniqueTargets_acc [of "[]" links] by (simp add: UniqueTargets_def)

lemma processWikiLinks_creates:
  assumes "find (\<lambda>l. Target l = t) links = Some l" and "page_by_slug d t = None"
    and "u \<in> set (map UserID (users d))" and "pg \<in> set (map ID (pages d))"
  shows "\<exists>p. page_by_slug (processWikiLinks d links u pg now) t = Some p \<and>
             Slug p = t \<and> Title p = DisplayText l \<and> IsPhantom p \<and>
             FirstCitedByUserID p = Some u \<and> FirstCitedInPageID p = Some pg"
proof -
  from assms(1) have "l \<in> set links \<and> Target l = t" by (rule find_Some_mem)
  then have "t \<in> set (UniqueTargets links)" by (auto simp: set_UniqueTargets)
  from link_steps_create [OF assms(1,2,3,4) this] show ?thesis
    by (simp add: processWikiLinks_link_step)
qed

lemma page_by_slug_None_slug_table:
  "page_by_slug db t = None \<longleftrightarrow> t \<notin> snd ` set (slug_table db)"
  by (force simp: page_by_slug_def find_None_conv slug_table_def)

lemma ids_slug_table: "set (map ID (pages db)) = fst ` set (slug_table db)"
  by (force simp: slug_table_def)

lemma slug_table_update_pages:
  assumes "\<And>q. ID (f q) = ID q" and "\<And>q. Slug (f q) = Slug q"
  shows "slug_table (update_pages db c f) = slug_table db"
  by (simp add: slug_table_def update_pages_def assms)

lemma insert_revision_effect:
  "insert_revision tx1 i c a now = Inr tx2 \<Longrightarrow>
     pages tx2 = pages tx1 \<and> users tx2 = users tx1 \<and> pages_fts tx2 = pages_fts tx1 \<and>
     a \<in> set (map UserID (users tx1)) \<and> i \<in> set (map ID (pages tx1))"
  by (auto simp: insert_revision_def Let_def split: if_splits)

lemma fts_insert_effect:
  "fts_insert tx2 i t c = Inr tx3 \<Longrightarrow>
     pages tx3 = pages tx2 \<and> users tx3 = users tx2 \<and> revisions tx3 = revisions tx2"
  by (auto simp: fts_insert_def split: if_splits)

lemma fts_delete_effect:
  "pages (fts_delete d i) = pages d \<and> users (fts_delete d i) = users d \<and>
   revisions (fts_delete d i) = revisions d"
  by (simp add: fts_delete_def)

text \<open>The part of the transaction of \<open>CreatePage\<close> after the page row is written.\<close>

lemma CreatePage_tail:
  assumes "(case insert_revision tx1 i c a now of
             Inl e \<Rightarrow> (Inl e, db)
           | Inr tx2 \<Rightarrow>
               (case fts_insert tx2 i t c of
                  Inl e \<Rightarrow> (Inl e, db)
                | Inr tx3 \<Rightarrow> (GetPageByID tx3 i, tx3))) = (res, out)"
  shows "(out = db \<and> (\<exists>e. res = Inl e)) \<or>
         (pages out = pages tx1 \<and> users out = users tx1 \<and> res = GetPageByID out i \<and>
          a \<in> set (map UserID (users tx1)) \<and> i \<in> set (map ID (pages tx1)))"
proof (cases "insert_revision tx1 i c a now")
  case (Inl e)
  with assms show ?thesis by auto
next
  case (Inr tx2)
  note r = insert_revision_effect [OF Inr]
  show ?thesis
  proof (cases "fts_insert tx2 i t c")
    case (Inl e)
    with assms Inr show ?thesis by auto
  next
    case (Inr tx3)
    note f = fts_insert_effect [OF Inr]
    from assms \<open>insert_revision tx1 i c a now = Inr tx2\<close> Inr
    have "out = tx3" "res = GetPageByID tx3 i" by auto
    with r f show ?thesis by simp
  qed
qed

lemma GetPageByID_Inr: "GetPageByID d i = Inr p \<Longrightarrow> p \<in> set (pages d) \<and> ID p = i"
  using find_Some_mem [of "\<lambda>p. ID p = i" "pages d" p]
  by (auto simp: GetPageByID_def page_by_id_def split: option.splits)

lemma CreatePage_effect:
  assumes "CreatePage db slug title content a now = (res, out)"
  shows "(out = db \<and> (\<exists>e. res = Inl e)) \<or>
         ((\<exists>new. slug_table out = slug_table db @ new \<and> (\<forall>x \<in> set new. snd x = slug)) \<and>
          users out = users db \<and> a \<in> set (map UserID (users db)) \<and>
          (\<exists>p. res = Inr p \<and> ID p \<in> set (map ID (pages out))) \<and>
          slug \<in> snd ` set (slug_table out))"
proof (cases "page_by_slug db slug")
  case None
  show ?thesis
  proof (cases "insert_page db slug title False None None now")
    case (Inl e)
    with None assms show ?thesis by (auto simp: CreatePage_def)
  next
    case (Inr r)
    obtain i tx1 where r: "r = (i, tx1)" by (cases r)
    from insert_page_pages [OF Inr [unfolded r]] obtain q where
      q: "pages tx1 = pages db @ [q]" "ID q = i" "Slug q = slug" "users tx1 = users db"
      by blast
    from assms None Inr r have
      "(case insert_revision tx1 i content a now of
             Inl e \<Rightarrow> (Inl e, db)
           | Inr tx2 \<Rightarrow>
               (case fts_insert tx2 i title content of
                  Inl e \<Rightarrow> (Inl e, db)
                | Inr tx3 \<Rightarrow> (GetPageByID tx3 i, tx3))) = (res, out)"
      by (simp add: CreatePage_def)
    from CreatePage_tail [OF this] show ?thesis
    proof
      assume "out = db \<and> (\<exists>e. res = Inl e)"
      then show ?thesis by blast
    next
      assume t: "pages out = pages tx1 \<and> users out = users tx1 \<and> res = GetPageByID out i \<and>
          a \<in> set (map UserID (users tx1)) \<and> i \<in> set (map ID (pages tx1))"
      then have st: "slug_table out = slug_table db @ [(i, slug)]"
        using q by (simp add: slug_table_def)
      have "page_by_id out i \<noteq> None"
        using t by (auto simp: page_by_id_def find_None_conv)
      then obtain p where p: "GetPageByID out i = Inr p"
        by (auto simp: GetPageByID_def)
      from GetPageByID_Inr [OF p] have "p \<in> set (pages out)" by simp
      then have "ID p \<in> ID ` set (pages out)" by (rule imageI)
      then have "ID p \<in> set (map ID (pages out))" by simp
      with st t p q(4) show ?thesis by auto
    qed
  qed
next
  case (Some existing)
  show ?thesis
  proof (cases "IsPhantom existing")
    case False
    with Some assms show ?thesis by (auto simp: CreatePage_def)
  next
    case True
    define tx1 where "tx1 = update_pages db (\<lambda>p. ID p = ID existing)
                            (\<lambda>p. p\<lparr>Title := title, IsPhantom := False, UpdatedAt := now\<rparr>)"
    have st1: "slug_table tx1 = slug_table db"
      unfolding tx1_def by (rule slug_table_update_pages) simp_all
    have u1: "users tx1 = users db" by (simp add: tx1_def update_pages_def)
    from assms Some True have
      "(case insert_revision tx1 (ID existing) content a now of
             Inl e \<Rightarrow> (Inl e, db)
           | Inr tx2 \<Rightarrow>
               (case fts_insert tx2 (ID existing) title content of
                  Inl e \<Rightarrow> (Inl e, db)
                | Inr tx3 \<Rightarrow> (GetPageByID tx3 (ID existing), tx3))) = (res, out)"
      by (simp add: CreatePage_def tx1_def)
    from CreatePage_tail [OF this] show ?thesis
    proof
      assume "out = db \<and> (\<exists>e. res = Inl e)"
      then show ?thesis by blast
    next
      assume t: "pages out = pages tx1 \<and> users out = users tx1 \<and>
          res = GetPageByID out (ID existing) \<and>
          a \<in> set (map UserID (users tx1)) \<and> ID existing \<in> set (map ID (pages tx1))"
      then have st: "slug_table out = slug_table db"
        using st1 by (simp add: slug_table_def)
      have "page_by_id out (ID existing) \<noteq> None"
        using t by (auto simp: page_by_id_def find_None_conv)
      then obtain p where p: "GetPageByID out (ID existing) = Inr p"
        by (auto simp: GetPageByID_def)
      from GetPageByID_Inr [OF p] have "p \<in> set (pages out)" by simp
      then have "ID p \<in> ID ` set (pages out)" by (rule imageI)
      then have ip: "ID p \<in> set (map ID (pages out))" by simp
      have "slug \<in> snd ` set (slug_table db)"
        using Some page_by_slug_None_slug_table [of db slug] by auto
      with st t p u1 ip show ?thesis by auto
    qed
  qed
qed

lemma UpdatePage_effect:
  assumes "UpdatePage db pageID title content a now = (res, out)"
  shows "(out = db \<and> (\<exists>e. res = Some e)) \<or>
         (slug_table out = slug_table db \<and> users out = users db \<and> res = None \<and>
          a \<in> set (map UserID (users db)) \<and> pageID \<in> set (map ID (pages out)))"
proof -
  define tx1 where
    "tx1 = update_pages db (\<lambda>p. ID p = pageID) (\<lambda>p. p\<lparr>Title := title, UpdatedAt := now\<rparr>)"
  have st1: "slug_table tx1 = slug_table db"
    unfolding tx1_def by (rule slug_table_update_pages) simp_all
  have u1: "users tx1 = users db" by (simp add: tx1_def update_pages_def)
  show ?thesis
  proof (cases "insert_revision tx1 pageID content a now")
    case (Inl e)
    with assms show ?thesis by (auto simp: UpdatePage_def tx1_def Let_def)
  next
    case (Inr tx2)
    note r = insert_revision_effect [OF Inr]
    show ?thesis
    proof (cases "fts_insert (fts_delete tx2 pageID) pageID title content")
      case (Inl e)
      with assms Inr show ?thesis by (auto simp: UpdatePage_def tx1_def Let_def)
    next
      case (Inr tx3)
      note f = fts_insert_effect [OF Inr]
      from assms \<open>insert_revision tx1 pageID content a now = Inr tx2\<close> Inr
      have o: "out = tx3" "res = None" by (simp_all add: UpdatePage_def tx1_def Let_def)
      have "pages tx3 = pages tx1" "users tx3 = users tx1"
        using r f fts_delete_effect [of tx2 pageID] by simp_all
      with o st1 u1 r show ?thesis by (simp add: slug_table_def)
    qed
  qed
qed

lemma SavePage_saved:
  assumes "SavePage extract db slug userID title content now = (PageSaved, db')"
  shows "\<exists>pageID db1. db' = processWikiLinks db1 (extract content) userID pageID now \<and>
           userID \<in> set (map UserID (users db1)) \<and> pageID \<in> set (map ID (pages db1)) \<and>
           (\<exists>new. slug_table db1 = slug_table db @ new \<and> (\<forall>x \<in> set new. snd x = slug)) \<and>
           slug \<in> snd ` set (slug_table db1)"
proof -
  define create where
    "create = (case GetPageBySlug db slug of Inl e \<Rightarrow> e = ErrNotFound | Inr page \<Rightarrow> IsPhantom page)"
  from assms have v: "title \<noteq> []" "\<not> len title > 500" "\<not> len content > 500 * 1024"
    by (auto simp: SavePage_def split: if_splits)
  show ?thesis
  proof (cases create)
    case True
    obtain res out where c: "CreatePage db slug title content userID now = (res, out)"
      by (cases "CreatePage db slug title content userID now")
    from assms v True c obtain page where
      p: "res = Inr page" "db' = processWikiLinks out (extract content) userID (ID page) now"
      by (cases res) (auto simp: SavePage_def Let_def create_def)
    from CreatePage_effect [OF c] p(1) have
      "(\<exists>new. slug_table out = slug_table db @ new \<and> (\<forall>x \<in> set new. snd x = slug)) \<and>
          users out = users db \<and> userID \<in> set (map UserID (users db)) \<and>
          ID page \<in> set (map ID (pages out)) \<and> slug \<in> snd ` set (slug_table out)"
      by auto
    with p(2) show ?thesis by (intro exI [of _ "ID page"] exI [of _ out]) simp
  next
    case False
    with assms v obtain page where g: "GetPageBySlug db slug = Inr page"
      by (cases "GetPageBySlug db slug") (auto simp: SavePage_def Let_def create_def)
    obtain res out where u: "UpdatePage db (ID page) title content userID now = (res, out)"
      by (cases "UpdatePage db (ID page) title content userID now")
    from assms v False g u have
      r: "res = None" "db' = processWikiLinks out (extract content) userID (ID page) now"
      by (cases res; simp add: SavePage_def Let_def create_def)+
    from g have "page_by_slug db slug \<noteq> None"
      by (auto simp: GetPageBySlug_def split: option.splits)
    then have sl: "slug \<in> snd ` set (slug_table db)"
      by (simp add: page_by_slug_None_slug_table)
    from UpdatePage_effect [OF u] r(1) have
      "slug_table out = slug_table db \<and> users out = users db \<and>
          userID \<in> set (map UserID (users db)) \<and> ID page \<in> set (map ID (pages out))"
      by auto
    with r(2) sl show ?thesis by (intro exI [of _ "ID page"] exI [of _ out]) simp
  qed
qed

text \<open>
  What the save path does with the links that the extraction reports. When a save succeeds
  and the first reported link with target \<open>t\<close> is \<open>l\<close>, and no page has the slug \<open>t\<close>, the
  phantom created for \<open>t\<close> gets the display text of \<open>l\<close> as its title (for a piped link: the
  text right of the bar, not the reference title the slug came from), and is cited by the
  saving user. That row is what \<open>GetPageBySlug\<close> returns afterwards, also after later rounds of
  link processing.
\<close>

theorem phantom_title_is_display_text:
  assumes "SavePage extract db slug userID title content now = (PageSaved, db')"
    and "find (\<lambda>link. Target link = t) (extract content) = Some l"
    and "page_by_slug db t = None" and "t \<noteq> slug"
  shows "\<exists>p. GetPageBySlug db' t = Inr p \<and> Slug p = t \<and> Title p = DisplayText l \<and>
             IsPhantom p \<and> FirstCitedByUserID p = Some userID \<and>
             (\<forall>links u pg now'. GetPageBySlug (processWikiLinks db' links u pg now') t = Inr p)"
proof -
  from SavePage_saved [OF assms(1)] obtain pageID db1 new where
    s: "db' = processWikiLinks db1 (extract content) userID pageID now"
       "userID \<in> set (map UserID (users db1))" "pageID \<in> set (map ID (pages db1))"
       "slug_table db1 = slug_table db @ new" "\<forall>x \<in> set new. snd x = slug"
    by blast
  from assms(3) have "t \<notin> snd ` set (slug_table db)"
    by (simp add: page_by_slug_None_slug_table)
  moreover have "t \<notin> snd ` set new" using s(5) assms(4) by force
  ultimately have "t \<notin> snd ` set (slug_table db1)" by (simp add: s(4) image_Un)
  then have n: "page_by_slug db1 t = None" by (simp add: page_by_slug_None_slug_table)
  from processWikiLinks_creates [OF assms(2) n s(2,3), of now] s(1) obtain p where
    p: "page_by_slug db' t = Some p" "Slug p = t" "Title p = DisplayText l" "IsPhantom p"
       "FirstCitedByUserID p = Some userID"
    by blast
  have "\<forall>links u pg now'. GetPageBySlug (processWikiLinks db' links u pg now') t = Inr p"
    using processWikiLinks_keeps [OF p(1)] by (simp add: GetPageBySlug_def)
  with p show ?thesis by (simp add: GetPageBySlug_def)
qed

lemma ExtractLinks_two_links:
  "ExtractLinks ascii_tables content_two_links
     = [\<lparr>Target = gostr ''known'', DisplayText = gostr ''Known''\<rparr>]"
  by (simp add: content_two_links_def ExtractLinks_def eval_defs)

lemma ExtractLinks_one_link:
  "ExtractLinks ascii_tables (gostr ''[[Unwritten Topic|see here]]'')
     = [\<lparr>Target = gostr ''unwritten-topic'', DisplayText = gostr ''see here''\<rparr>]"
  by (simp add: ExtractLinks_def eval_defs)

lemma len_two_links: "len content_two_links = 54"
  by (simp add: content_two_links_def len_def RuneLen_def gostr_def)

lemma SavePage_two_links:
  "SavePage (ExtractLinks ascii_tables) (empty_db demo_users) (gostr ''intro'') 1
      (gostr ''Intro'') content_two_links 5
   = (PageSaved,
      \<lparr>users = demo_users,
       pages = [\<lparr>ID = 1, Slug = gostr ''intro'', Title = gostr ''Intro'', IsPhantom = False,
                 FirstCitedByUserID = None, FirstCitedInPageID = None,
                 DeletedAt = None, CreatedAt = 5, UpdatedAt = 5\<rparr>,
                \<lparr>ID = 2, Slug = gostr ''known'', Title = gostr ''Known'', IsPhantom = True,
                 FirstCitedByUserID = Some 1, FirstCitedInPageID = Some 1,
                 DeletedAt = None, CreatedAt = 5, UpdatedAt = 5\<rparr>],
       revisions = [\<lparr>RevID = 1, PageID = 1, Content = content_two_links, AuthorID = 1,
                     RevCreatedAt = 5, AuthorUsername = []\<rparr>],
       pages_fts = [(1, gostr ''Intro'', content_two_links)],
       pages_seq = 2, revisions_seq = 1\<rparr>)"
  unfolding SavePage_def ExtractLinks_two_links
  by (simp add: len_two_links)
     (simp add: processWikiLinks_def UniqueTargets_def demo_users_def store_defs gostr_def
        len_def RuneLen_def)


lemma SavePage_one_link:
  "SavePage (ExtractLinks ascii_tables) (empty_db demo_users) (gostr ''intro'') 1
      (gostr ''Intro'') (gostr ''[[Unwritten Topic|see here]]'') 5
   = (PageSaved,
      \<lparr>users = demo_users,
       pages = [\<lparr>ID = 1, Slug = gostr ''intro'', Title = gostr ''Intro'', IsPhantom = False,
                 FirstCitedByUserID = None, FirstCitedInPageID = None,
                 DeletedAt = None, CreatedAt = 5, UpdatedAt = 5\<rparr>,
                \<lparr>ID = 2, Slug = gostr ''unwritten-topic'', Title = gostr ''see here'',
                 IsPhantom = True, FirstCitedByUserID = Some 1, FirstCitedInPageID = Some 1,
                 DeletedAt = None, CreatedAt = 5, UpdatedAt = 5\<rparr>],
       revisions = [\<lparr>RevID = 1, PageID = 1, Content = gostr ''[[Unwritten Topic|see here]]'',
                     AuthorID = 1, RevCreatedAt = 5, AuthorUsername = []\<rparr>],
       pages_fts = [(1, gostr ''Intro'', gostr ''[[Unwritten Topic|see here]]'')],
       pages_seq = 2, revisions_seq = 1\<rparr>)"
  unfolding SavePage_def ExtractLinks_one_link
  by (simp add: processWikiLinks_def UniqueTargets_def demo_users_def store_defs gostr_def
        len_def RuneLen_def)

lemma Parse_first_link:
  "Parse ascii_tables (gostr ''[[Known]] and [[Unwritten Topic|see here]]'') 12
     = Some (\<lparr>Target = gostr ''known'', DisplayText = gostr ''Known''\<rparr>, 21)"
  "len (gostr ''[[Known]]'') = 9"
  by (simp_all add: eval_defs)

text \<open>
  Claim C10 does not hold of the code. \<open>Parse\<close> gives the reader's \<^verbatim>\<open>Advance\<close> the count
  \<^verbatim>\<open>segment.Start + end + 2\<close>, the length of the link plus the offset of its line in the source,
  so behind a link that does not start at offset 0 the reader skips that many bytes more. In
  the line \<open>content_two_links\<close> the first link starts at offset 12 and is 9 bytes long; the
  reader advances by 21 (\<open>Parse_first_link\<close>) and stands inside the piped link that starts 5
  bytes after the first. From offset 12 the loop finds the first link only, where from
  offset 0 it finds both. The extraction reports the first link only, and the save that
  cites \<^verbatim>\<open>[[Unwritten Topic|see here]]\<close> creates no page for \<^verbatim>\<open>unwritten-topic\<close>. With the piped
  link alone as content, at offset 0, the phantom is created with the title \<^verbatim>\<open>see here\<close>.
\<close>

theorem piped_link_behind_a_link_is_skipped:
  "inline_loop ascii_tables (gostr ''[[Known]] and [[Unwritten Topic|see here]]'') 12 0
     = [\<lparr>Target = gostr ''known'', DisplayText = gostr ''Known''\<rparr>] \<and>
   inline_loop ascii_tables (gostr ''[[Known]] and [[Unwritten Topic|see here]]'') 0 0
     = [\<lparr>Target = gostr ''known'', DisplayText = gostr ''Known''\<rparr>,
        \<lparr>Target = gostr ''unwritten-topic'', DisplayText = gostr ''see here''\<rparr>] \<and>
   ExtractLinks ascii_tables content_two_links
     = [\<lparr>Target = gostr ''known'', DisplayText = gostr ''Known''\<rparr>] \<and>
   fst (SavePage (ExtractLinks ascii_tables) (empty_db demo_users) (gostr ''intro'') 1
          (gostr ''Intro'') content_two_links 5) = PageSaved \<and>
   map (\<lambda>p. (Slug p, Title p, IsPhantom p)) (pages db_two_links)
     = [(gostr ''intro'', gostr ''Intro'', False), (gostr ''known'', gostr ''Known'', True)] \<and>
   GetPageBySlug db_two_links (gostr ''unwritten-topic'') = Inl ErrNotFound \<and>
   ExtractLinks ascii_tables (gostr ''[[Unwritten Topic|see here]]'')
     = [\<lparr>Target = gostr ''unwritten-topic'', DisplayText = gostr ''see here''\<rparr>] \<and>
   map (\<lambda>p. (Slug p, Title p, IsPhantom p)) (pages db_one_link)
     = [(gostr ''intro'', gostr ''Intro'', False),
        (gostr ''unwritten-topic'', gostr ''see here'', True)]"
proof -
  have 1: "inline_loop ascii_tables (gostr ''[[Known]] and [[Unwritten Topic|see here]]'') 12 0
     = [\<lparr>Target = gostr ''known'', DisplayText = gostr ''Known''\<rparr>]"
    by (simp add: eval_defs)
  have 2: "inline_loop ascii_tables (gostr ''[[Known]] and [[Unwritten Topic|see here]]'') 0 0
     = [\<lparr>Target = gostr ''known'', DisplayText = gostr ''Known''\<rparr>,
        \<lparr>Target = gostr ''unwritten-topic'', DisplayText = gostr ''see here''\<rparr>]"
    by (simp add: eval_defs)
  have 3: "map (\<lambda>p. (Slug p, Title p, IsPhantom p)) (pages db_two_links)
     = [(gostr ''intro'', gostr ''Intro'', False), (gostr ''known'', gostr ''Known'', True)]"
    "GetPageBySlug db_two_links (gostr ''unwritten-topic'') = Inl ErrNotFound"
    unfolding db_two_links_def SavePage_two_links
    by (simp_all add: GetPageBySlug_def page_by_slug_def gostr_def)
  have 4: "map (\<lambda>p. (Slug p, Title p, IsPhantom p)) (pages db_one_link)
     = [(gostr ''intro'', gostr ''Intro'', False),
        (gostr ''unwritten-topic'', gostr ''see here'', True)]"
    unfolding db_one_link_def SavePage_one_link by simp
  from 1 2 3 4 ExtractLinks_two_links ExtractLinks_one_link show ?thesis
    by (simp add: SavePage_two_links)
qed

lemma Parse_target_slug:
  assumes "Parse U line start = Some (l, n)"
  shows "\<exists>title. Target l = Slugify U title"
proof -
  from Parse_Some_decomposed [OF assms] obtain c rest where
    c: "line = 91 # 91 # c @ 93 # 93 # rest" "\<not> has_close (c @ [93])" "10 \<notin> set c"
    by blast
  from Parse_decomposed [OF c(2,3), of U rest start] assms c(1)
  have "wikilink_spec U c = Some l" by auto
  then show ?thesis
    by (auto simp: wikilink_spec_def Let_def split: if_splits)
qed

lemma Slugify_Slugify: "nfkd_ascii U \<Longrightarrow> Slugify U (Slugify U t) = Slugify U t"
  using slug_shape_fixed [of U "Slugify U t"] Slugify_runes [of U t] Slugify_shape [of U t]
  by blast

lemma CreatePhantom_phantom:
  "\<exists>new. pages (snd (CreatePhantom d x title u pg now)) = pages d @ new \<and>
         (\<forall>q \<in> set new. Slug q = x \<and> IsPhantom q)"
proof (cases "page_by_slug d x")
  case (Some p)
  then show ?thesis by (simp add: CreatePhantom_existing)
next
  case None
  show ?thesis
  proof (cases "insert_page d x title True (Some u) (Some pg) now")
    case (Inl e)
    with None show ?thesis by (simp add: CreatePhantom_def GetPageBySlug_def)
  next
    case (Inr r)
    obtain i d' where r: "r = (i, d')" by (cases r)
    from insert_page_pages [OF Inr [unfolded r]] None Inr r show ?thesis
      by (auto simp: CreatePhantom_def GetPageBySlug_def)
  qed
qed

lemma link_step_phantom:
  "\<exists>new. pages (link_step links u pg now d x) = pages d @ new \<and>
         (\<forall>q \<in> set new. Slug q = x \<and> IsPhantom q)"
proof (cases "PageExists d x")
  case True
  then show ?thesis by (simp add: link_step_def)
next
  case False
  then show ?thesis
    using CreatePhantom_phantom [of d x _ u pg now] by (simp add: link_step_def Let_def)
qed

lemma link_steps_phantoms:
  "\<exists>new. pages (foldl (link_step links u pg now) d ts) = pages d @ new \<and>
         (\<forall>q \<in> set new. Slug q \<in> set ts \<and> IsPhantom q)"
proof (induction ts arbitrary: d)
  case Nil
  show ?case by simp
next
  case (Cons x ts)
  from link_step_phantom [of links u pg now d x] obtain n1 where
    n1: "pages (link_step links u pg now d x) = pages d @ n1"
        "\<forall>q \<in> set n1. Slug q = x \<and> IsPhantom q"
    by blast
  from Cons.IH [of "link_step links u pg now d x"] obtain n2 where
    n2: "pages (foldl (link_step links u pg now) (link_step links u pg now d x) ts)
           = pages (link_step links u pg now d x) @ n2"
        "\<forall>q \<in> set n2. Slug q \<in> set ts \<and> IsPhantom q"
    by blast
  have "pages (foldl (link_step links u pg now) d (x # ts)) = pages d @ (n1 @ n2)"
    using n1(1) n2(1) by simp
  moreover have "\<forall>q \<in> set (n1 @ n2). Slug q \<in> set (x # ts) \<and> IsPhantom q"
    using n1(2) n2(2) by auto
  ultimately show ?case by blast
qed

lemma processWikiLinks_phantoms:
  "\<exists>new. pages (processWikiLinks db links u pg now) = pages db @ new \<and>
         (\<forall>q \<in> set new. Slug q \<in> Target ` set links \<and> IsPhantom q)"
  using link_steps_phantoms [of links u pg now db "UniqueTargets links"]
  by (simp add: processWikiLinks_link_step set_UniqueTargets)

lemma slug_table_append:
  "pages d' = pages d @ new \<Longrightarrow> slug_table d' = slug_table d @ map (\<lambda>p. (ID p, Slug p)) new"
  by (simp add: slug_table_def)

lemma SoftDeletePage_slug_table: "slug_table (snd (SoftDeletePage db i now)) = slug_table db"
proof -
  have "slug_table (update_pages db (\<lambda>p. ID p = i \<and> DeletedAt p = None)
                  (\<lambda>p. p\<lparr>DeletedAt := Some now, UpdatedAt := now\<rparr>)) = slug_table db"
    by (rule slug_table_update_pages) simp_all
  then show ?thesis
    by (simp add: SoftDeletePage_def Let_def slug_table_def fts_delete_def)
qed

lemma RestorePage_slug_table: "slug_table (snd (RestorePage pick db i now)) = slug_table db"
proof (cases "find (\<lambda>p. ID p = i \<and> DeletedAt p \<noteq> None) (pages db)")
  case None
  then show ?thesis by (simp add: RestorePage_def)
next
  case (Some p)
  define db1 where
    "db1 = update_pages db (\<lambda>q. ID q = i) (\<lambda>q. q\<lparr>DeletedAt := None, UpdatedAt := now\<rparr>)"
  have 1: "slug_table db1 = slug_table db"
    unfolding db1_def by (rule slug_table_update_pages) simp_all
  have 2: "\<And>t c. slug_table (case fts_insert db1 i t c of Inl e \<Rightarrow> db1 | Inr d \<Rightarrow> d)
             = slug_table db1"
    by (simp add: fts_insert_def slug_table_def)
  define c where "c = (case order_desc_limit1 pick
                                (filter (\<lambda>r. PageID r = ID p) (revisions db)) of
                           None \<Rightarrow> []
                         | Some r \<Rightarrow> Content r)"
  have "snd (RestorePage pick db i now)
          = (case fts_insert db1 i (Title p) c of Inl e \<Rightarrow> db1 | Inr d \<Rightarrow> d)"
    unfolding RestorePage_def Some option.case Let_def db1_def c_def by simp
  then show ?thesis by (simp only: 1 2)
qed

lemma apply_op_slug_table: "\<exists>new. slug_table (apply_op pick db op) = slug_table db @ new"
proof (cases op)
  case (OpCreatePage slug title content a now)
  obtain res out where c: "CreatePage db slug title content a now = (res, out)"
    by (cases "CreatePage db slug title content a now")
  from CreatePage_effect [OF c] have "\<exists>new. slug_table out = slug_table db @ new"
    by auto
  with c OpCreatePage show ?thesis by simp
next
  case (OpUpdatePage i title content a now)
  obtain res out where c: "UpdatePage db i title content a now = (res, out)"
    by (cases "UpdatePage db i title content a now")
  from UpdatePage_effect [OF c] have "slug_table out = slug_table db" by auto
  with c OpUpdatePage show ?thesis by simp
next
  case (OpCreatePhantom slug title u pg now)
  from CreatePhantom_grows [of db slug title u pg now] obtain new where
    "pages (snd (CreatePhantom db slug title u pg now)) = pages db @ new" by blast
  from slug_table_append [OF this] OpCreatePhantom show ?thesis by simp
next
  case (OpSoftDeletePage i now)
  then show ?thesis by (simp add: SoftDeletePage_slug_table)
next
  case (OpRestorePage i now)
  then show ?thesis by (simp add: RestorePage_slug_table)
qed

lemma run_slug_table: "\<exists>new. slug_table (run pick db ops) = slug_table db @ new"
proof (induction ops arbitrary: db)
  case Nil
  show ?case by (simp add: run_def)
next
  case (Cons op ops)
  from apply_op_slug_table [of pick db op] obtain n1 where
    n1: "slug_table (apply_op pick db op) = slug_table db @ n1" by blast
  from Cons.IH [of "apply_op pick db op"] obtain n2 where
    n2: "slug_table (run pick (apply_op pick db op) ops) = slug_table (apply_op pick db op) @ n2"
    by blast
  have "slug_table (run pick db (op # ops)) = slug_table db @ (n1 @ n2)"
    using n1 n2 by (simp add: run_def)
  then show ?case by blast
qed

lemma processWikiLinks_slug_table:
  "\<exists>new. slug_table (processWikiLinks db links u pg now) = slug_table db @ new"
proof -
  from processWikiLinks_grows [of db links u pg now] obtain new where
    "pages (processWikiLinks db links u pg now) = pages db @ new"
    unfolding same_but_pages_def by blast
  from slug_table_append [OF this] show ?thesis by blast
qed

lemma SavePage_slug_table:
  "\<exists>new. slug_table (snd (SavePage extract db slug userID title content now)) = slug_table db @ new"
proof -
  obtain r db' where s: "SavePage extract db slug userID title content now = (r, db')"
    by (cases "SavePage extract db slug userID title content now")
  show ?thesis
  proof (cases "r = PageSaved")
    case True
    from SavePage_saved [OF s [unfolded True]] obtain pageID db1 n1 where
      d: "db' = processWikiLinks db1 (extract content) userID pageID now"
         "slug_table db1 = slug_table db @ n1"
      by blast
    from processWikiLinks_slug_table [of db1 "extract content" userID pageID now] obtain n2 where
      "slug_table (processWikiLinks db1 (extract content) userID pageID now) = slug_table db1 @ n2"
      by blast
    with d have "slug_table db' = slug_table db @ (n1 @ n2)" by simp
    with s show ?thesis by (metis snd_conv)
  next
    case False
    have "db' = db"
    proof -
      obtain res out where c: "CreatePage db slug title content userID now = (res, out)"
        by (cases "CreatePage db slug title content userID now")
      have c': "\<And>e. res = Inl e \<Longrightarrow> out = db"
        using CreatePage_effect [OF c] by auto
      show ?thesis
      proof (cases "GetPageBySlug db slug")
        case (Inl e)
        with s False c c' show ?thesis
          by (cases res) (auto simp: SavePage_def Let_def split: if_splits)
      next
        case (Inr page)
        obtain ures uout where u: "UpdatePage db (ID page) title content userID now = (ures, uout)"
          by (cases "UpdatePage db (ID page) title content userID now")
        have u': "\<And>e. ures = Some e \<Longrightarrow> uout = db"
          using UpdatePage_effect [OF u] by auto
        from s False c c' Inr u u' show ?thesis
          by (cases res; cases ures) (auto simp: SavePage_def Let_def split: if_splits)
      qed
    qed
    with s show ?thesis by simp
  qed
qed

text \<open>
  Slugs of existing rows. No store operation, and no save, ever changes the slug (or the id)
  of a row that exists: the slug table after any sequence of operations is the one before
  with rows added at the end. The phantom rows that link processing adds carry a slug that
  \<open>Slugify\<close> leaves unchanged, when the links come from the wiki-link parser. A row written by
  \<open>CreatePage\<close> carries the slug it was given.
\<close>

theorem slug_immutable_phantom_slug_normalised:
  "(\<exists>new. slug_table (run pick db ops) = slug_table db @ new) \<and>
   (\<exists>new. slug_table (snd (SavePage extract db slug userID title content now))
            = slug_table db @ new) \<and>
   (nfkd_ascii U \<and> (\<forall>l \<in> set links. \<exists>line start n. Parse U line start = Some (l, n)) \<longrightarrow>
      (\<exists>new. pages (processWikiLinks db links userID pageID now) = pages db @ new \<and>
             (\<forall>q \<in> set new. IsPhantom q \<and> Slugify U (Slug q) = Slug q))) \<and>
   (\<forall>p db'. CreatePage db slug title content userID now = (Inr p, db') \<longrightarrow>
        slug \<in> snd ` set (slug_table db'))"
proof (intro conjI impI allI)
  show "\<exists>new. slug_table (run pick db ops) = slug_table db @ new"
    by (rule run_slug_table)
  show "\<exists>new. slug_table (snd (SavePage extract db slug userID title content now))
            = slug_table db @ new"
    by (rule SavePage_slug_table)
next
  assume a: "nfkd_ascii U \<and> (\<forall>l \<in> set links. \<exists>line start n. Parse U line start = Some (l, n))"
  from processWikiLinks_phantoms [of db links userID pageID now] obtain new where
    new: "pages (processWikiLinks db links userID pageID now) = pages db @ new"
         "\<forall>q \<in> set new. Slug q \<in> Target ` set links \<and> IsPhantom q"
    by blast
  have "\<forall>q \<in> set new. IsPhantom q \<and> Slugify U (Slug q) = Slug q"
  proof
    fix q assume "q \<in> set new"
    with new(2) obtain l where l: "l \<in> set links" "Slug q = Target l" "IsPhantom q" by auto
    with a obtain line start n where "Parse U line start = Some (l, n)" by blast
    from Parse_target_slug [OF this] obtain t where "Target l = Slugify U t" by blast
    with a l show "IsPhantom q \<and> Slugify U (Slug q) = Slug q"
      by (simp add: Slugify_Slugify)
  qed
  with new(1) show "\<exists>new. pages (processWikiLinks db links userID pageID now) = pages db @ new \<and>
             (\<forall>q \<in> set new. IsPhantom q \<and> Slugify U (Slug q) = Slug q)"
    by blast
next
  fix p db' assume c: "CreatePage db slug title content userID now = (Inr p, db')"
  from CreatePage_effect [OF c] show "slug \<in> snd ` set (slug_table db')" by auto
qed

lemma db_edit_deleted_eq:
  "db_edit_deleted = \<lparr>users = demo_users,
           pages = [\<lparr>ID = 1, Slug = gostr ''a'', Title = gostr ''A'', IsPhantom = False,
                     FirstCitedByUserID = None, FirstCitedInPageID = None,
                     DeletedAt = Some 20, CreatedAt = 10, UpdatedAt = 30\<rparr>,
                    \<lparr>ID = 2, Slug = gostr ''b'', Title = gostr ''B'', IsPhantom = True,
                     FirstCitedByUserID = Some 1, FirstCitedInPageID = Some 1,
                     DeletedAt = None, CreatedAt = 11, UpdatedAt = 11\<rparr>],
           revisions = [\<lparr>RevID = 1, PageID = 1, Content = gostr ''x'', AuthorID = 1,
                         RevCreatedAt = 10, AuthorUsername = []\<rparr>,
                        \<lparr>RevID = 2, PageID = 1, Content = gostr ''y'', AuthorID = 1,
                         RevCreatedAt = 30, AuthorUsername = []\<rparr>],
           pages_fts = [(1, gostr ''A'', gostr ''y'')], pages_seq = 2, revisions_seq = 2\<rparr>"
  by (simp add: db_edit_deleted_def db_a_deleted_eq demo_users_def store_defs gostr_def)

lemma db_b_restored_eq:
  "db_b_restored = \<lparr>users = demo_users,
           pages = [\<lparr>ID = 1, Slug = gostr ''a'', Title = gostr ''A'', IsPhantom = False,
                     FirstCitedByUserID = None, FirstCitedInPageID = None,
                     DeletedAt = None, CreatedAt = 10, UpdatedAt = 10\<rparr>,
                    \<lparr>ID = 2, Slug = gostr ''b'', Title = gostr ''B'', IsPhantom = True,
                     FirstCitedByUserID = Some 1, FirstCitedInPageID = Some 1,
                     DeletedAt = None, CreatedAt = 11, UpdatedAt = 30\<rparr>],
           revisions = [\<lparr>RevID = 1, PageID = 1, Content = gostr ''x'', AuthorID = 1,
                         RevCreatedAt = 10, AuthorUsername = []\<rparr>],
           pages_fts = [(1, gostr ''A'', gostr ''x''), (2, gostr ''B'', [])],
           pages_seq = 2, revisions_seq = 1\<rparr>"
  by (simp add: db_b_restored_def db_b_deleted_eq demo_users_def store_defs gostr_def)

lemma db_upper_eq:
  "SavePage no_links (empty_db demo_users) (gostr ''UPPER'') 1 (gostr ''Upper'') (gostr ''text'') 5
     = (PageSaved,
        \<lparr>users = demo_users,
           pages = [\<lparr>ID = 1, Slug = gostr ''UPPER'', Title = gostr ''Upper'', IsPhantom = False,
                     FirstCitedByUserID = None, FirstCitedInPageID = None,
                     DeletedAt = None, CreatedAt = 5, UpdatedAt = 5\<rparr>],
           revisions = [\<lparr>RevID = 1, PageID = 1, Content = gostr ''text'', AuthorID = 1,
                         RevCreatedAt = 5, AuthorUsername = []\<rparr>],
           pages_fts = [(1, gostr ''Upper'', gostr ''text'')],
           pages_seq = 1, revisions_seq = 1\<rparr>)"
  by (simp add: SavePage_def no_links_def processWikiLinks_def UniqueTargets_def
      demo_users_def store_defs gostr_def len_def RuneLen_def)

lemma db_my_page_eq:
  "SavePage no_links (empty_db demo_users) (gostr ''My Page'') 1 (gostr ''My Page'') (gostr ''text'') 5
     = (PageSaved,
        \<lparr>users = demo_users,
           pages = [\<lparr>ID = 1, Slug = gostr ''My Page'', Title = gostr ''My Page'', IsPhantom = False,
                     FirstCitedByUserID = None, FirstCitedInPageID = None,
                     DeletedAt = None, CreatedAt = 5, UpdatedAt = 5\<rparr>],
           revisions = [\<lparr>RevID = 1, PageID = 1, Content = gostr ''text'', AuthorID = 1,
                         RevCreatedAt = 5, AuthorUsername = []\<rparr>],
           pages_fts = [(1, gostr ''My Page'', gostr ''text'')],
           pages_seq = 1, revisions_seq = 1\<rparr>)"
  by (simp add: SavePage_def no_links_def processWikiLinks_def UniqueTargets_def
      demo_users_def store_defs gostr_def len_def RuneLen_def)

text \<open>
  Claim C5 does not hold of the code. \<open>SavePage\<close> takes the slug from the path of the request
  and hands it to \<open>CreatePage\<close> as it is, without \<open>Slugify\<close> and without a check of its form:
  the first save under the slug \<^verbatim>\<open>My Page\<close> creates a page row with exactly that slug, which
  \<open>Slugify\<close> turns into \<^verbatim>\<open>my-page\<close>, and likewise \<^verbatim>\<open>UPPER\<close>, which \<open>Slugify\<close> turns into
  \<^verbatim>\<open>upper\<close>. (The title and the size of the content are checked in the same place, and the
  links of the content are normalised by the parser.)
\<close>

theorem SavePage_keeps_request_slug:
  "fst (SavePage no_links (empty_db demo_users) (gostr ''My Page'') 1 (gostr ''My Page'')
          (gostr ''text'') 5) = PageSaved \<and>
   slug_table db_my_page = [(1, gostr ''My Page'')] \<and>
   Slugify ascii_tables (gostr ''My Page'') = gostr ''my-page'' \<and>
   gostr ''my-page'' \<noteq> gostr ''My Page'' \<and>
   fst (SavePage no_links (empty_db demo_users) (gostr ''UPPER'') 1 (gostr ''Upper'')
          (gostr ''text'') 5) = PageSaved \<and>
   slug_table db_upper = [(1, gostr ''UPPER'')] \<and>
   Slugify ascii_tables (gostr ''UPPER'') = gostr ''upper'' \<and>
   gostr ''upper'' \<noteq> gostr ''UPPER''"
proof -
  have "Slugify ascii_tables (gostr ''UPPER'') = gostr ''upper''"
    "Slugify ascii_tables (gostr ''My Page'') = gostr ''my-page''"
    by (simp_all add: eval_defs)
  moreover have "gostr ''upper'' \<noteq> gostr ''UPPER''" "gostr ''my-page'' \<noteq> gostr ''My Page''"
    by (simp_all add: gostr_def)
  ultimately show ?thesis
    by (simp add: db_upper_def db_upper_eq db_my_page_def db_my_page_eq slug_table_def)
qed

theorem slug_immutable_phantom_slug_normalised_witness:
  "nfkd_ascii ascii_tables \<and>
   Parse ascii_tables (gostr ''[[Unwritten Topic|see here]]'') 0 = Some (piped_link, 28) \<and>
   (\<exists>new. pages (processWikiLinks db_a [piped_link] 2 1 30) = pages db_a @ new \<and>
          new \<noteq> [] \<and>
          (\<forall>q \<in> set new. IsPhantom q \<and> Slugify ascii_tables (Slug q) = Slug q)) \<and>
   slug_table db_edit_deleted = slug_table db_a @ [(2, gostr ''b'')] \<and>
   (\<exists>p db'. CreatePage db_a (gostr ''UPPER'') (gostr ''Upper'') (gostr ''text'') 1 40
              = (Inr p, db') \<and> gostr ''UPPER'' \<in> snd ` set (slug_table db'))"
proof -
  note T = slug_immutable_phantom_slug_normalised
  have h: "nfkd_ascii ascii_tables"
    by (simp add: nfkd_ascii_def ascii_tables_def)
  have p: "Parse ascii_tables (gostr ''[[Unwritten Topic|see here]]'') 0 = Some (piped_link, 28)"
    by (simp add: eval_defs piped_link_def)
  then have l: "\<forall>l \<in> set [piped_link]. \<exists>line start n. Parse ascii_tables line start = Some (l, n)"
    by auto
  have ne: "pages (processWikiLinks db_a [piped_link] 2 1 30) \<noteq> pages db_a"
    by (simp add: db_a_eq processWikiLinks_def UniqueTargets_def piped_link_def
        demo_users_def store_defs gostr_def)
  from T [of first_row db_a "[]" no_links "[]" 2 "[]" "[]" 30 ascii_tables "[piped_link]" 1] h l
  obtain new where new: "pages (processWikiLinks db_a [piped_link] 2 1 30) = pages db_a @ new"
    "\<forall>q \<in> set new. IsPhantom q \<and> Slugify ascii_tables (Slug q) = Slug q"
    by blast
  with ne have "new \<noteq> []" by auto
  with new have 1: "\<exists>new. pages (processWikiLinks db_a [piped_link] 2 1 30) = pages db_a @ new \<and>
          new \<noteq> [] \<and>
          (\<forall>q \<in> set new. IsPhantom q \<and> Slugify ascii_tables (Slug q) = Slug q)"
    by blast
  have 2: "slug_table db_edit_deleted = slug_table db_a @ [(2, gostr ''b'')]"
    by (simp add: db_edit_deleted_eq db_a_eq slug_table_def)
  obtain r db' where c: "CreatePage db_a (gostr ''UPPER'') (gostr ''Upper'') (gostr ''text'') 1 40
              = (r, db')"
    by (cases "CreatePage db_a (gostr ''UPPER'') (gostr ''Upper'') (gostr ''text'') 1 40")
  have "\<exists>p. fst (CreatePage db_a (gostr ''UPPER'') (gostr ''Upper'') (gostr ''text'') 1 40) = Inr p"
    by (simp add: db_a_eq demo_users_def store_defs gostr_def)
  with c obtain p where r: "r = Inr p" by auto
  from T [of first_row db_a "[]" no_links "gostr ''UPPER''" 1 "gostr ''Upper''" "gostr ''text''" 40
      ascii_tables "[]" 1] c r
  have 3: "\<exists>p db'. CreatePage db_a (gostr ''UPPER'') (gostr ''Upper'') (gostr ''text'') 1 40
              = (Inr p, db') \<and> gostr ''UPPER'' \<in> snd ` set (slug_table db')"
    by blast
  from h p 1 2 3 show ?thesis by blast
qed

text \<open>
  Claim C1 does not hold of the code. Page \<open>a\<close> is soft-deleted and the index is in step with
  the pages; saving the page again goes through \<open>UpdatePage\<close>, which has no condition on
  \<^verbatim>\<open>deleted_at\<close> and writes an index entry for the page although it stays soft-deleted.
  Restoring the soft-deleted phantom \<open>b\<close> gives a phantom an index entry. And writing the
  soft-deleted phantom with \<open>CreatePage\<close> indexes a page that stays soft-deleted. In each of
  the three final states the index has an entry for a page that is a phantom or soft-deleted.
\<close>

theorem index_entry_of_deleted_page:
  "fts_synced first_row db_a \<and>
   fts_synced first_row db_a_deleted \<and>
   SavePage no_links db_a_deleted (gostr ''a'') 1 (gostr ''A'') (gostr ''y'') 30
     = (PageSaved, db_edit_deleted) \<and>
   page_by_id db_edit_deleted 1 = Some (row_a_deleted\<lparr>UpdatedAt := 30\<rparr>) \<and>
   index_entry db_edit_deleted 1 = Some (gostr ''A'', gostr ''y'') \<and>
   \<not> fts_synced first_row db_edit_deleted \<and>
   fts_synced first_row db_b_deleted \<and>
   page_by_id db_b_restored 2 = Some (row_b\<lparr>UpdatedAt := 30\<rparr>) \<and>
   index_entry db_b_restored 2 = Some (gostr ''B'', []) \<and>
   \<not> fts_synced first_row db_b_restored \<and>
   page_by_id db_b_written 2
     = Some (row_b\<lparr>IsPhantom := False, DeletedAt := Some 20, UpdatedAt := 40\<rparr>) \<and>
   index_entry db_b_written 2 = Some (gostr ''B'', gostr ''text'') \<and>
   \<not> fts_synced first_row db_b_written"
proof -
  have 1: "fts_synced first_row db_a_deleted"
    by (simp add: fts_synced_def db_a_deleted_eq demo_users_def store_defs gostr_def)
  have 2: "SavePage no_links db_a_deleted (gostr ''a'') 1 (gostr ''A'') (gostr ''y'') 30
     = (PageSaved, db_edit_deleted)"
    by (simp add: db_edit_deleted_eq)
      (simp add: SavePage_def no_links_def processWikiLinks_def UniqueTargets_def
        db_a_deleted_eq demo_users_def store_defs gostr_def len_def RuneLen_def)
  have 3: "page_by_id db_edit_deleted 1 = Some (row_a_deleted\<lparr>UpdatedAt := 30\<rparr>)"
    "index_entry db_edit_deleted 1 = Some (gostr ''A'', gostr ''y'')"
    by (simp_all add: db_edit_deleted_eq row_a_deleted_def page_by_id_def index_entry_def)
  have 4: "\<not> fts_synced first_row db_edit_deleted"
    by (simp add: fts_synced_def db_edit_deleted_eq index_entry_def)
  have 5: "fts_synced first_row db_b_deleted"
    by (simp add: fts_synced_def db_b_deleted_eq demo_users_def store_defs gostr_def)
  have 6: "page_by_id db_b_restored 2 = Some (row_b\<lparr>UpdatedAt := 30\<rparr>)"
    "index_entry db_b_restored 2 = Some (gostr ''B'', [])"
    by (simp_all add: db_b_restored_eq row_b_def page_by_id_def index_entry_def)
  have 7: "\<not> fts_synced first_row db_b_restored"
    by (simp add: fts_synced_def db_b_restored_eq index_entry_def)
  have w: "db_b_written = \<lparr>users = demo_users,
           pages = [\<lparr>ID = 1, Slug = gostr ''a'', Title = gostr ''A'', IsPhantom = False,
                     FirstCitedByUserID = None, FirstCitedInPageID = None,
                     DeletedAt = None, CreatedAt = 10, UpdatedAt = 10\<rparr>,
                    \<lparr>ID = 2, Slug = gostr ''b'', Title = gostr ''B'', IsPhantom = False,
                     FirstCitedByUserID = Some 1, FirstCitedInPageID = Some 1,
                     DeletedAt = Some 20, CreatedAt = 11, UpdatedAt = 40\<rparr>],
           revisions = [\<lparr>RevID = 1, PageID = 1, Content = gostr ''x'', AuthorID = 1,
                         RevCreatedAt = 10, AuthorUsername = []\<rparr>,
                        \<lparr>RevID = 2, PageID = 2, Content = gostr ''text'', AuthorID = 1,
                         RevCreatedAt = 40, AuthorUsername = []\<rparr>],
           pages_fts = [(1, gostr ''A'', gostr ''x''), (2, gostr ''B'', gostr ''text'')],
           pages_seq = 2, revisions_seq = 2\<rparr>"
    by (simp add: db_b_written_def db_b_deleted_eq demo_users_def store_defs gostr_def)
  have 9: "page_by_id db_b_written 2
     = Some (row_b\<lparr>IsPhantom := False, DeletedAt := Some 20, UpdatedAt := 40\<rparr>)"
    "index_entry db_b_written 2 = Some (gostr ''B'', gostr ''text'')"
    by (simp_all add: w row_b_def page_by_id_def index_entry_def)
  have 10: "\<not> fts_synced first_row db_b_written"
    by (simp add: fts_synced_def w index_entry_def)
  have 11: "fts_synced first_row db_a"
    by (simp add: fts_synced_def db_a_eq demo_users_def store_defs gostr_def)
  from 1 2 3 4 5 6 7 9 10 11 show ?thesis by blast
qed

text \<open>
  Claim C2 does not hold of the code. The phantom \<open>b\<close> has been soft-deleted and restored,
  and \<open>RestorePage\<close> has given it an index entry. \<open>CreatePage\<close> for its slug finds the phantom,
  updates the row and inserts the revision, and then fails on the insert into the index,
  which holds a row under the page's id already: the call returns that error and rolls back,
  and the phantom is not converted. (\<open>UpdatePage\<close> deletes the index row before it inserts.)
  The save of the page ends with the failure of \<open>CreatePage\<close>.
\<close>

theorem CreatePage_over_indexed_phantom:
  "db_b_restored
     = run first_row (empty_db demo_users)
         [OpCreatePage (gostr ''a'') (gostr ''A'') (gostr ''x'') 1 10,
          OpCreatePhantom (gostr ''b'') (gostr ''B'') 1 1 11,
          OpSoftDeletePage 2 20,
          OpRestorePage 2 30] \<and>
   page_by_slug db_b_restored (gostr ''b'') = Some (row_b\<lparr>UpdatedAt := 30\<rparr>) \<and>
   IsPhantom (row_b\<lparr>UpdatedAt := 30\<rparr>) \<and>
   DeletedAt (row_b\<lparr>UpdatedAt := 30\<rparr>) = None \<and>
   1 \<in> set (map UserID (users db_b_restored)) \<and>
   CreatePage db_b_restored (gostr ''b'') (gostr ''Bee'') (gostr ''text'') 1 40
     = (Inl ErrConstraint, db_b_restored) \<and>
   SavePage no_links db_b_restored (gostr ''b'') 1 (gostr ''Bee'') (gostr ''text'') 40
     = (CreateFailed, db_b_restored)"
proof -
  have 1: "db_b_restored
     = run first_row (empty_db demo_users)
         [OpCreatePage (gostr ''a'') (gostr ''A'') (gostr ''x'') 1 10,
          OpCreatePhantom (gostr ''b'') (gostr ''B'') 1 1 11,
          OpSoftDeletePage 2 20,
          OpRestorePage 2 30]"
    by (simp add: db_b_restored_def db_b_deleted_def db_ab_def db_a_def run_def)
  have 2: "page_by_slug db_b_restored (gostr ''b'') = Some (row_b\<lparr>UpdatedAt := 30\<rparr>)"
    "IsPhantom (row_b\<lparr>UpdatedAt := 30\<rparr>)" "DeletedAt (row_b\<lparr>UpdatedAt := 30\<rparr>) = None"
    "1 \<in> set (map UserID (users db_b_restored))"
    by (simp_all add: db_b_restored_eq row_b_def page_by_slug_def demo_users_def gostr_def)
  have 3: "CreatePage db_b_restored (gostr ''b'') (gostr ''Bee'') (gostr ''text'') 1 40
     = (Inl ErrConstraint, db_b_restored)"
    by (simp add: db_b_restored_eq)
      (simp add: demo_users_def store_defs gostr_def)
  have 4: "SavePage no_links db_b_restored (gostr ''b'') 1 (gostr ''Bee'') (gostr ''text'') 40
     = (CreateFailed, db_b_restored)"
    unfolding SavePage_def 3
    by (simp add: db_b_restored_eq GetPageBySlug_def page_by_slug_def gostr_def len_def RuneLen_def)
  from 1 2 3 4 show ?thesis by blast
qed

section \<open>The index invariant\<close>

lemma revs_of_append:
  "revisions out = revisions db @ [r] \<Longrightarrow>
     revs_of out j = revs_of db j @ (if PageID r = j then [r] else [])"
  by (simp add: revs_of_def)

lemma revs_of_same: "revisions out = revisions db \<Longrightarrow> revs_of out j = revs_of db j"
  by (simp add: revs_of_def)

lemma expected_entry_same:
  "revs_of out (ID p) = revs_of db (ID p) \<Longrightarrow> expected_entry out p = expected_entry db p"
  by (simp add: expected_entry_def)

lemma revs_of_fresh:
  assumes "inv_refs db" and "i \<notin> set (map ID (pages db))"
  shows "revs_of db i = []"
proof -
  from assms have "\<forall>r \<in> set (revisions db). PageID r \<noteq> i"
    unfolding inv_refs_def by metis
  then show ?thesis by (simp add: revs_of_def filter_empty_conv)
qed

lemma index_entry_fresh:
  assumes "inv_refs db" and "i \<notin> set (map ID (pages db))"
  shows "index_entry db i = None"
proof -
  from assms have "i \<notin> set (map fst (pages_fts db))"
    unfolding inv_refs_def by metis
  then show ?thesis by (simp add: index_entry_None)
qed

text \<open>A write: page \<open>i\<close> gets the title and a new last revision, and the index entry for both.\<close>

lemma store_inv_write:
  assumes inv: "store_inv db"
    and u: "users out = users db"
    and pg: "pages out = map G (pages db) @ newp"
    and G_id: "\<And>p. ID (G p) = ID p"
    and G_other: "\<And>p. ID p \<noteq> i \<Longrightarrow> G p = p"
    and G_i: "\<And>p. p \<in> set (pages db) \<Longrightarrow> ID p = i \<Longrightarrow>
                 \<not> IsPhantom (G p) \<and> DeletedAt (G p) = None \<and> Title (G p) = title"
    and newp: "newp = [] \<or> (\<exists>p'. newp = [p'] \<and> ID p' = i \<and> i \<notin> set (map ID (pages db)) \<and>
                 \<not> IsPhantom p' \<and> DeletedAt p' = None \<and> Title p' = title)"
    and i_in: "i \<in> set (map ID (pages out))"
    and rv: "revisions out = revisions db @ [r]"
    and r: "PageID r = i" "Content r = content" "AuthorID r \<in> set (map UserID (users db))"
    and later: "\<forall>x \<in> set (revs_of db i). RevCreatedAt x < RevCreatedAt r"
    and ix_i: "index_entry out i = Some (title, content)"
    and ix_o: "\<And>j. j \<noteq> i \<Longrightarrow> index_entry out j = index_entry db j"
    and keys: "set (map fst (pages_fts out)) \<subseteq> insert i (set (map fst (pages_fts db)))"
  shows "store_inv out"
proof -
  from inv have k: "inv_keys db" and rf: "inv_refs db" and rs: "inv_revs db" and ix: "inv_index db"
    by (simp_all add: store_inv_def)
  have ids_map: "map ID (map G (pages db)) = map ID (pages db)"
    by (induction "pages db") (simp_all add: G_id)
  have ids: "map ID (pages out) = map ID (pages db) @ map ID newp"
    by (simp add: pg G_id)
  have sub: "set (map ID (pages db)) \<subseteq> set (map ID (pages out))"
    by (simp add: ids)
  have row: "\<And>q. q \<in> set (pages out) \<Longrightarrow>
      (ID q = i \<and> \<not> IsPhantom q \<and> DeletedAt q = None \<and> Title q = title) \<or>
      (ID q \<noteq> i \<and> q \<in> set (pages db))"
  proof -
    fix q assume "q \<in> set (pages out)"
    then have "q \<in> G ` set (pages db) \<or> q \<in> set newp" by (auto simp: pg)
    then show "(ID q = i \<and> \<not> IsPhantom q \<and> DeletedAt q = None \<and> Title q = title) \<or>
      (ID q \<noteq> i \<and> q \<in> set (pages db))"
    proof
      assume "q \<in> G ` set (pages db)"
      then obtain p where p: "p \<in> set (pages db)" "q = G p" by auto
      show ?thesis
      proof (cases "ID p = i")
        case True
        with G_i [OF p(1) True] p G_id [of p] show ?thesis by simp
      next
        case False
        with G_other [OF False] p show ?thesis by simp
      qed
    next
      assume "q \<in> set newp"
      with newp show ?thesis by auto
    qed
  qed
  have rvs: "\<And>j. revs_of out j = revs_of db j @ (if j = i then [r] else [])"
    using revs_of_append [OF rv] r(1) by auto
  have 1: "inv_keys out"
  proof -
    from newp have "distinct (map ID (pages db) @ map ID newp)"
    proof
      assume "newp = []"
      with k show ?thesis by (simp add: inv_keys_def)
    next
      assume "\<exists>p'. newp = [p'] \<and> ID p' = i \<and> i \<notin> set (map ID (pages db)) \<and>
                 \<not> IsPhantom p' \<and> DeletedAt p' = None \<and> Title p' = title"
      then obtain p' where "newp = [p']" "ID p' \<notin> set (map ID (pages db))" by metis
      with k show ?thesis by (simp add: inv_keys_def)
    qed
    then show ?thesis by (simp add: inv_keys_def ids)
  qed
  have 2: "inv_refs out"
    unfolding inv_refs_def
  proof (intro conjI ballI)
    fix x assume "x \<in> set (revisions out)"
    then have "x \<in> set (revisions db) \<or> x = r" by (auto simp: rv)
    then show "PageID x \<in> set (map ID (pages out))"
    proof
      assume "x \<in> set (revisions db)"
      with rf have "PageID x \<in> set (map ID (pages db))" by (simp add: inv_refs_def)
      with sub show ?thesis by blast
    next
      assume "x = r"
      with r(1) i_in show ?thesis by simp
    qed
    from \<open>x \<in> set (revisions db) \<or> x = r\<close> show "AuthorID x \<in> set (map UserID (users out))"
      using rf r(3) by (auto simp: inv_refs_def u)
  next
    fix kx assume "kx \<in> set (map fst (pages_fts out))"
    with keys have "kx = i \<or> kx \<in> set (map fst (pages_fts db))" by blast
    then show "kx \<in> set (map ID (pages out))"
    proof
      assume "kx = i" with i_in show ?thesis by simp
    next
      assume "kx \<in> set (map fst (pages_fts db))"
      with rf have "kx \<in> set (map ID (pages db))" unfolding inv_refs_def by blast
      with sub show ?thesis by blast
    qed
  qed
  have 3: "inv_revs out"
    unfolding inv_revs_def
  proof (intro conjI ballI allI)
    fix q assume "q \<in> set (pages out)"
    from row [OF this] show "(revs_of out (ID q) = []) = IsPhantom q"
    proof
      assume "ID q = i \<and> \<not> IsPhantom q \<and> DeletedAt q = None \<and> Title q = title"
      then show ?thesis by (simp add: rvs)
    next
      assume a: "ID q \<noteq> i \<and> q \<in> set (pages db)"
      with rs have "(revs_of db (ID q) = []) = IsPhantom q" by (simp add: inv_revs_def)
      with a show ?thesis by (simp add: rvs)
    qed
  next
    fix j
    from rs have s: "sorted_wrt (<) (map RevCreatedAt (revs_of db j))" by (simp add: inv_revs_def)
    show "sorted_wrt (<) (map RevCreatedAt (revs_of out j))"
    proof (cases "j = i")
      case True
      with s later show ?thesis by (simp add: rvs sorted_wrt_append)
    next
      case False
      with s show ?thesis by (simp add: rvs)
    qed
  qed
  have 4: "inv_index out"
    unfolding inv_index_def
  proof
    fix q assume "q \<in> set (pages out)"
    from row [OF this] show "index_entry out (ID q) = expected_entry out q"
    proof
      assume a: "ID q = i \<and> \<not> IsPhantom q \<and> DeletedAt q = None \<and> Title q = title"
      then have "expected_entry out q = Some (title, content)"
        by (simp add: expected_entry_def rvs r(2))
      with a ix_i show ?thesis by simp
    next
      assume a: "ID q \<noteq> i \<and> q \<in> set (pages db)"
      with ix have "index_entry db (ID q) = expected_entry db q" by (simp add: inv_index_def)
      moreover have "expected_entry out q = expected_entry db q"
        using a by (intro expected_entry_same) (simp add: rvs)
      ultimately show ?thesis using a ix_o by simp
    qed
  qed
  from 1 2 3 4 show ?thesis by (simp add: store_inv_def)
qed

lemma map_of_filter_other:
  "j \<noteq> i \<Longrightarrow> map_of (filter (\<lambda>row. fst row \<noteq> i) xs) j = map_of xs j"
  by (induction xs) auto

lemma map_of_filter_self: "map_of (filter (\<lambda>row. fst row \<noteq> i) xs) i = None"
  by (induction xs) auto

lemma map_of_append_other: "j \<noteq> i \<Longrightarrow> map_of (xs @ [(i, v)]) j = map_of xs j"
  by (induction xs) auto

text \<open>A change of the deletion mark of page \<open>i\<close>, with the index entry set to match.\<close>

lemma store_inv_flag:
  assumes inv: "store_inv db"
    and u: "users out = users db"
    and rv: "revisions out = revisions db"
    and pg: "pages out = map G (pages db)"
    and G_id: "\<And>p. ID (G p) = ID p"
    and G_other: "\<And>p. ID p \<noteq> i \<Longrightarrow> G p = p"
    and G_ph: "\<And>p. IsPhantom (G p) = IsPhantom p"
    and ix_i: "\<And>p. p \<in> set (pages db) \<Longrightarrow> ID p = i \<Longrightarrow>
                 index_entry out i = expected_entry out (G p)"
    and ix_o: "\<And>j. j \<noteq> i \<Longrightarrow> index_entry out j = index_entry db j"
    and keys: "set (map fst (pages_fts out)) \<subseteq> set (map ID (pages db))"
  shows "store_inv out"
proof -
  from inv have k: "inv_keys db" and rf: "inv_refs db" and rs: "inv_revs db" and ix: "inv_index db"
    by (simp_all add: store_inv_def)
  have ids: "map ID (pages out) = map ID (pages db)"
    unfolding pg by (induction "pages db") (simp_all add: G_id)
  have rvs: "\<And>j. revs_of out j = revs_of db j"
    using rv by (rule revs_of_same)
  have 1: "inv_keys out" using k by (simp add: inv_keys_def ids)
  have 2: "inv_refs out"
    using rf keys by (auto simp: inv_refs_def ids rv u)
  have 3: "inv_revs out"
    unfolding inv_revs_def
  proof (intro conjI ballI allI)
    fix q assume "q \<in> set (pages out)"
    then obtain p where p: "p \<in> set (pages db)" "q = G p" by (auto simp: pg)
    with rs have "(revs_of db (ID p) = []) = IsPhantom p" by (simp add: inv_revs_def)
    with p show "(revs_of out (ID q) = []) = IsPhantom q"
      by (simp add: rvs G_id G_ph)
  next
    fix j show "sorted_wrt (<) (map RevCreatedAt (revs_of out j))"
      using rs by (simp add: inv_revs_def rvs)
  qed
  have 4: "inv_index out"
    unfolding inv_index_def
  proof
    fix q assume "q \<in> set (pages out)"
    then obtain p where p: "p \<in> set (pages db)" "q = G p" by (auto simp: pg)
    show "index_entry out (ID q) = expected_entry out q"
    proof (cases "ID p = i")
      case True
      with ix_i [OF p(1) True] p show ?thesis by (simp add: G_id)
    next
      case False
      from ix p(1) have "index_entry db (ID p) = expected_entry db p" by (simp add: inv_index_def)
      moreover have "expected_entry out p = expected_entry db p"
        by (intro expected_entry_same) (simp add: rvs)
      ultimately show ?thesis
        using False p ix_o [OF False] G_other [OF False] by (simp add: G_id)
    qed
  qed
  from 1 2 3 4 show ?thesis by (simp add: store_inv_def)
qed

text \<open>A new phantom row.\<close>

lemma store_inv_phantom:
  assumes inv: "store_inv db"
    and u: "users out = users db"
    and rv: "revisions out = revisions db"
    and ft: "pages_fts out = pages_fts db"
    and pg: "pages out = pages db @ [q]"
    and q: "ID q \<notin> set (map ID (pages db))" "IsPhantom q"
  shows "store_inv out"
proof -
  from inv have k: "inv_keys db" and rf: "inv_refs db" and rs: "inv_revs db" and ix: "inv_index db"
    by (simp_all add: store_inv_def)
  have rvs: "\<And>j. revs_of out j = revs_of db j"
    using rv by (rule revs_of_same)
  have ie: "\<And>j. index_entry out j = index_entry db j"
    by (simp add: index_entry_def ft)
  have 1: "inv_keys out" using k q(1) by (simp add: inv_keys_def pg)
  have 2: "inv_refs out"
    using rf by (auto simp: inv_refs_def pg rv u ft)
  have 3: "inv_revs out"
    unfolding inv_revs_def
  proof (intro conjI ballI allI)
    fix x assume "x \<in> set (pages out)"
    then have "x \<in> set (pages db) \<or> x = q" by (auto simp: pg)
    then show "(revs_of out (ID x) = []) = IsPhantom x"
    proof
      assume "x \<in> set (pages db)"
      with rs show ?thesis by (simp add: inv_revs_def rvs)
    next
      assume "x = q"
      with revs_of_fresh [OF rf q(1)] q(2) show ?thesis by (simp add: rvs)
    qed
  next
    fix j show "sorted_wrt (<) (map RevCreatedAt (revs_of out j))"
      using rs by (simp add: inv_revs_def rvs)
  qed
  have 4: "inv_index out"
    unfolding inv_index_def
  proof
    fix x assume "x \<in> set (pages out)"
    then have "x \<in> set (pages db) \<or> x = q" by (auto simp: pg)
    then show "index_entry out (ID x) = expected_entry out x"
    proof
      assume a: "x \<in> set (pages db)"
      with ix have "index_entry db (ID x) = expected_entry db x" by (simp add: inv_index_def)
      moreover have "expected_entry out x = expected_entry db x"
        by (intro expected_entry_same) (simp add: rvs)
      ultimately show ?thesis by (simp add: ie)
    next
      assume "x = q"
      with index_entry_fresh [OF rf q(1)] q(2) show ?thesis
        by (simp add: ie expected_entry_def)
    qed
  qed
  from 1 2 3 4 show ?thesis by (simp add: store_inv_def)
qed

lemma store_inv_empty: "store_inv (empty_db us)"
  by (simp add: store_inv_def inv_keys_def inv_refs_def inv_revs_def inv_index_def empty_db_def
      revs_of_def)

lemma newest_snoc:
  assumes "sorted_wrt (<) (map RevCreatedAt (xs @ [y]))"
  shows "newest (xs @ [y]) = [y]"
proof -
  from assms have lt: "\<forall>x \<in> set xs. RevCreatedAt x < RevCreatedAt y"
    by (simp add: sorted_wrt_append)
  have "\<And>x. x \<in> set xs \<Longrightarrow> \<not> (\<forall>r' \<in> set (xs @ [y]). RevCreatedAt r' \<le> RevCreatedAt x)"
  proof
    fix x assume "x \<in> set xs" and a: "\<forall>r' \<in> set (xs @ [y]). RevCreatedAt r' \<le> RevCreatedAt x"
    with lt have "RevCreatedAt x < RevCreatedAt y" by blast
    moreover from a have "RevCreatedAt y \<le> RevCreatedAt x" by simp
    ultimately show False by simp
  qed
  then have "filter (\<lambda>r. \<forall>r' \<in> set (xs @ [y]). RevCreatedAt r' \<le> RevCreatedAt r) xs = []"
    unfolding filter_empty_conv by blast
  moreover have "\<forall>r' \<in> set (xs @ [y]). RevCreatedAt r' \<le> RevCreatedAt y"
    using lt by (simp add: less_imp_le)
  ultimately show ?thesis by (simp add: newest_def)
qed

lemma newest_sorted:
  assumes "sorted_wrt (<) (map RevCreatedAt rs)" and "rs \<noteq> []"
  shows "newest rs = [last rs]"
proof -
  from assms(2) obtain xs y where xy: "rs = xs @ [y]" by (cases rs rule: rev_cases) auto
  from assms(1) have "newest (xs @ [y]) = [y]" unfolding xy by (rule newest_snoc)
  then show ?thesis by (simp add: xy)
qed

lemma pick_single:
  assumes "tie_rule pick"
  shows "pick [x] = x"
proof -
  from assms have "\<forall>rs. rs \<noteq> [] \<longrightarrow> pick rs \<in> set rs" unfolding tie_rule_def .
  then have "[x] \<noteq> [] \<longrightarrow> pick [x] \<in> set [x]" by (rule spec)
  then show ?thesis by simp
qed

lemma order_desc_limit1_sorted:
  assumes "tie_rule pick" and "sorted_wrt (<) (map RevCreatedAt rs)" and "rs \<noteq> []"
  shows "order_desc_limit1 pick rs = Some (last rs)"
  using assms by (simp add: order_desc_limit1_def newest_sorted pick_single)

lemma distinct_ID_eq:
  assumes "distinct (map ID ps)" and "p \<in> set ps" and "q \<in> set ps" and "ID p = ID q"
  shows "p = q"
  using assms by (induction ps) (auto simp: image_iff)

lemma SoftDeletePage_store_inv:
  assumes inv: "store_inv db"
  shows "store_inv (snd (SoftDeletePage db i now))"
proof -
  define G where "G = (\<lambda>p::Page. if ID p = i \<and> DeletedAt p = None
                                 then p\<lparr>DeletedAt := Some now, UpdatedAt := now\<rparr> else p)"
  define out where "out = snd (SoftDeletePage db i now)"
  define hit where "hit = (filter (\<lambda>p. ID p = i \<and> DeletedAt p = None) (pages db) \<noteq> [])"
  from inv have rf: "inv_refs db" and ix: "inv_index db" by (simp_all add: store_inv_def)
  have o: "out = (if hit then fts_delete (update_pages db (\<lambda>p. ID p = i \<and> DeletedAt p = None)
                   (\<lambda>p. p\<lparr>DeletedAt := Some now, UpdatedAt := now\<rparr>)) i
                else update_pages db (\<lambda>p. ID p = i \<and> DeletedAt p = None)
                   (\<lambda>p. p\<lparr>DeletedAt := Some now, UpdatedAt := now\<rparr>))"
    by (simp add: out_def hit_def SoftDeletePage_def Let_def)
  have u: "users out = users db" and rv: "revisions out = revisions db"
    and pg: "pages out = map G (pages db)"
    by (simp_all add: o update_pages_def fts_delete_def G_def)
  have ft: "pages_fts out = (if hit then filter (\<lambda>row. fst row \<noteq> i) (pages_fts db)
                            else pages_fts db)"
    by (simp add: o update_pages_def fts_delete_def)
  have "store_inv out"
  proof (rule store_inv_flag [OF inv u rv pg, of i])
    fix p show "ID (G p) = ID p" by (simp add: G_def)
    show "IsPhantom (G p) = IsPhantom p" by (simp add: G_def)
    show "ID p \<noteq> i \<Longrightarrow> G p = p" by (simp add: G_def)
  next
    fix j :: int assume "j \<noteq> i"
    then show "index_entry out j = index_entry db j"
      by (simp add: index_entry_def ft map_of_filter_other)
  next
    show "set (map fst (pages_fts out)) \<subseteq> set (map ID (pages db))"
      using rf by (auto simp: inv_refs_def ft)
  next
    fix p assume p: "p \<in> set (pages db)" "ID p = i"
    have e: "expected_entry out (G p) = None"
      using p(2) by (cases "DeletedAt p") (simp_all add: expected_entry_def G_def)
    show "index_entry out i = expected_entry out (G p)"
    proof (cases hit)
      case True
      then show ?thesis by (simp add: e index_entry_def ft map_of_filter_self)
    next
      case False
      with p have d: "DeletedAt p \<noteq> None"
        by (auto simp: hit_def filter_empty_conv)
      from ix p have "index_entry db i = expected_entry db p" by (auto simp: inv_index_def)
      moreover have "expected_entry db p = None" using d by (simp add: expected_entry_def)
      ultimately have "index_entry db i = None" by simp
      with False show ?thesis by (simp add: e index_entry_def ft)
    qed
  qed
  then show ?thesis by (simp add: out_def)
qed

lemma RestorePage_store_inv:
  assumes tie: "tie_rule pick" and inv: "store_inv db"
    and ok: "list_all (\<lambda>p. ID p \<noteq> i \<or> \<not> IsPhantom p) (pages db)"
  shows "store_inv (snd (RestorePage pick db i now))"
proof (cases "find (\<lambda>p. ID p = i \<and> DeletedAt p \<noteq> None) (pages db)")
  case None
  with inv show ?thesis by (simp add: RestorePage_def)
next
  case (Some p)
  from find_Some_mem [OF Some] have p: "p \<in> set (pages db)" "ID p = i" "DeletedAt p \<noteq> None"
    by auto
  from inv have k: "inv_keys db" and rf: "inv_refs db" and rs: "inv_revs db" and ix: "inv_index db"
    by (simp_all add: store_inv_def)
  from ok p have real: "\<not> IsPhantom p" by (auto simp: list_all_iff)
  define G where "G = (\<lambda>q::Page. if ID q = i then q\<lparr>DeletedAt := None, UpdatedAt := now\<rparr> else q)"
  define c where "c = (case order_desc_limit1 pick (revs_of db i) of
                         None \<Rightarrow> [] | Some r \<Rightarrow> Content r)"
  define db1 where
    "db1 = update_pages db (\<lambda>q. ID q = i) (\<lambda>q. q\<lparr>DeletedAt := None, UpdatedAt := now\<rparr>)"
  define out where "out = (case fts_insert db1 i (Title p) c of Inl e \<Rightarrow> db1 | Inr d \<Rightarrow> d)"
  have o: "snd (RestorePage pick db i now) = out"
    unfolding RestorePage_def Some option.case Let_def out_def db1_def c_def revs_of_def p(2)
    by simp
  from ix p have "index_entry db i = None" by (auto simp: inv_index_def expected_entry_def)
  then have nk: "i \<notin> set (map fst (pages_fts db))" by (simp add: index_entry_None)
  have f1: "pages_fts db1 = pages_fts db" by (simp add: db1_def update_pages_def)
  have o2: "out = db1\<lparr>pages_fts := pages_fts db @ [(i, Title p, c)]\<rparr>"
    using nk by (simp add: out_def fts_insert_def f1)
  have u: "users out = users db" and rv: "revisions out = revisions db"
    and pg: "pages out = map G (pages db)"
    and ft: "pages_fts out = pages_fts db @ [(i, Title p, c)]"
    by (simp_all add: o2 db1_def update_pages_def G_def)
  from rs p real have ne: "revs_of db i \<noteq> []"
    and so: "sorted_wrt (<) (map RevCreatedAt (revs_of db i))"
    by (auto simp: inv_revs_def)
  have cc: "c = Content (last (revs_of db i))"
    by (simp add: c_def order_desc_limit1_sorted [OF tie so ne])
  have "store_inv out"
  proof (rule store_inv_flag [OF inv u rv pg, of i])
    fix q show "ID (G q) = ID q" by (simp add: G_def)
    show "IsPhantom (G q) = IsPhantom q" by (simp add: G_def)
    show "ID q \<noteq> i \<Longrightarrow> G q = q" by (simp add: G_def)
  next
    fix j :: int assume "j \<noteq> i"
    then show "index_entry out j = index_entry db j"
      by (simp add: index_entry_def ft map_of_append_other del: map_of_append)
  next
    have "i \<in> set (map ID (pages db))" using p by force
    then show "set (map fst (pages_fts out)) \<subseteq> set (map ID (pages db))"
      using rf by (auto simp: inv_refs_def ft)
  next
    fix q assume q: "q \<in> set (pages db)" "ID q = i"
    from k have "distinct (map ID (pages db))" by (simp add: inv_keys_def)
    from distinct_ID_eq [OF this q(1) p(1)] q(2) p(2) have qp: "q = p" by simp
    have "expected_entry out (G p) = Some (Title p, c)"
      using real p(2) by (simp add: expected_entry_def G_def revs_of_same [OF rv] cc)
    moreover have "index_entry out i = Some (Title p, c)"
      using nk by (simp add: index_entry_def ft map_of_append_new del: map_of_append)
    ultimately show "index_entry out i = expected_entry out (G q)" by (simp add: qp)
  qed
  with o show ?thesis by simp
qed

lemma CreatePhantom_store_inv:
  assumes inv: "store_inv db"
  shows "store_inv (snd (CreatePhantom db slug title u pg now))"
proof (cases "page_by_slug db slug")
  case (Some p)
  with inv show ?thesis by (simp add: CreatePhantom_existing)
next
  case None
  show ?thesis
  proof (cases "insert_page db slug title True (Some u) (Some pg) now")
    case (Inl e)
    with None inv show ?thesis by (simp add: CreatePhantom_def GetPageBySlug_def)
  next
    case (Inr r)
    obtain i out where r: "r = (i, out)" by (cases r)
    have o: "snd (CreatePhantom db slug title u pg now) = out"
      using None Inr r by (simp add: CreatePhantom_def GetPageBySlug_def)
    have "insert_page db slug title True (Some u) (Some pg) now = Inr (i, out)"
      using Inr r by simp
    then have i: "i = next_rowid (map ID (pages db)) (pages_seq db)"
      unfolding insert_page_def Let_def by (simp split: if_splits)
    have "\<forall>x \<in> set (map ID (pages db)). x < i"
      unfolding i using next_rowid_fresh by blast
    then have fresh: "i \<notin> set (map ID (pages db))" by blast
    from insert_page_pages [OF Inr [unfolded r]] obtain q where
      q: "pages out = pages db @ [q]" "ID q = i" "IsPhantom q = True" "users out = users db"
         "revisions out = revisions db" "pages_fts out = pages_fts db"
      by blast
    from fresh q(2) have fq: "ID q \<notin> set (map ID (pages db))" by simp
    from q(3) have pq: "IsPhantom q" by simp
    have "store_inv out"
      using inv q(4) q(5) q(6) q(1) fq pq by (rule store_inv_phantom)
    with o show ?thesis by simp
  qed
qed

lemma insert_revision_form:
  assumes "insert_revision d i c a now = Inr d'"
  shows "\<exists>r. revisions d' = revisions d @ [r] \<and> PageID r = i \<and> Content r = c \<and>
             AuthorID r = a \<and> RevCreatedAt r = now \<and>
             a \<in> set (map UserID (users d)) \<and> i \<in> set (map ID (pages d)) \<and>
             pages d' = pages d \<and> users d' = users d \<and> pages_fts d' = pages_fts d"
proof -
  from assms have ok: "i \<in> set (map ID (pages d))" "a \<in> set (map UserID (users d))"
    unfolding insert_revision_def by (simp_all split: if_splits)
  define r where "r = \<lparr>RevID = next_rowid (map RevID (revisions d)) (revisions_seq d),
      PageID = i, Content = c, AuthorID = a, RevCreatedAt = now, AuthorUsername = []\<rparr>"
  from assms ok have "d' = d\<lparr>revisions := revisions d @ [r], revisions_seq := RevID r\<rparr>"
    unfolding insert_revision_def Let_def r_def by simp
  then have "revisions d' = revisions d @ [r]" "pages d' = pages d" "users d' = users d"
    "pages_fts d' = pages_fts d"
    by simp_all
  moreover have "PageID r = i" "Content r = c" "AuthorID r = a" "RevCreatedAt r = now"
    by (simp_all add: r_def)
  ultimately show ?thesis using ok by blast
qed

lemma fts_insert_form:
  assumes "fts_insert d i t c = Inr d'"
  shows "i \<notin> set (map fst (pages_fts d)) \<and> pages_fts d' = pages_fts d @ [(i, t, c)] \<and>
         pages d' = pages d \<and> users d' = users d \<and> revisions d' = revisions d"
proof -
  from assms have n: "i \<notin> set (map fst (pages_fts d))"
    unfolding fts_insert_def by (simp split: if_splits)
  with assms have "d' = d\<lparr>pages_fts := pages_fts d @ [(i, t, c)]\<rparr>"
    unfolding fts_insert_def by simp
  with n show ?thesis by simp
qed

lemma CreatePage_tail_form:
  assumes "(case insert_revision tx1 i c a now of
             Inl e \<Rightarrow> (Inl e, db)
           | Inr tx2 \<Rightarrow>
               (case fts_insert tx2 i t c of
                  Inl e \<Rightarrow> (Inl e, db)
                | Inr tx3 \<Rightarrow> (GetPageByID tx3 i, tx3))) = (res, out)"
  shows "out = db \<or>
         (\<exists>r. users out = users tx1 \<and> pages out = pages tx1 \<and>
              revisions out = revisions tx1 @ [r] \<and> PageID r = i \<and> Content r = c \<and>
              AuthorID r \<in> set (map UserID (users tx1)) \<and> RevCreatedAt r = now \<and>
              pages_fts out = pages_fts tx1 @ [(i, t, c)] \<and>
              i \<notin> set (map fst (pages_fts tx1)) \<and> i \<in> set (map ID (pages tx1)))"
proof (cases "insert_revision tx1 i c a now")
  case (Inl e)
  with assms show ?thesis by simp
next
  case (Inr tx2)
  from insert_revision_form [OF Inr] obtain r where
    r: "revisions tx2 = revisions tx1 @ [r]" "PageID r = i" "Content r = c" "AuthorID r = a"
       "RevCreatedAt r = now" "a \<in> set (map UserID (users tx1))" "i \<in> set (map ID (pages tx1))"
       "pages tx2 = pages tx1" "users tx2 = users tx1" "pages_fts tx2 = pages_fts tx1"
    by blast
  show ?thesis
  proof (cases "fts_insert tx2 i t c")
    case (Inl e)
    with assms Inr show ?thesis by simp
  next
    case (Inr tx3)
    note f = fts_insert_form [OF Inr]
    from assms \<open>insert_revision tx1 i c a now = Inr tx2\<close> Inr have o: "out = tx3" by simp
    have "users out = users tx1 \<and> pages out = pages tx1 \<and>
              revisions out = revisions tx1 @ [r] \<and> PageID r = i \<and> Content r = c \<and>
              AuthorID r \<in> set (map UserID (users tx1)) \<and> RevCreatedAt r = now \<and>
              pages_fts out = pages_fts tx1 @ [(i, t, c)] \<and>
              i \<notin> set (map fst (pages_fts tx1)) \<and> i \<in> set (map ID (pages tx1))"
      using f r by (simp add: o)
    then show ?thesis by blast
  qed
qed

lemma index_entry_append_new:
  "pages_fts out = xs @ [(i, v)] \<Longrightarrow> i \<notin> set (map fst xs) \<Longrightarrow> index_entry out i = Some v"
  using map_of_append_new [of i xs v] by (simp add: index_entry_def del: map_of_append)

lemma index_entry_append_other:
  "pages_fts out = xs @ [(i, v)] \<Longrightarrow> j \<noteq> i \<Longrightarrow> index_entry out j = map_of xs j"
  using map_of_append_other [of j i xs v] by (simp add: index_entry_def del: map_of_append)

lemma CreatePage_store_inv:
  assumes inv: "store_inv db"
    and ok: "op_ok db (OpCreatePage slug title content a now)"
  shows "store_inv (snd (CreatePage db slug title content a now))"
proof -
  obtain res out where c: "CreatePage db slug title content a now = (res, out)"
    by (cases "CreatePage db slug title content a now")
  from inv have k: "inv_keys db" and rf: "inv_refs db" and rs: "inv_revs db"
    by (simp_all add: store_inv_def)
  have "store_inv out"
  proof (cases "page_by_slug db slug")
    case None
    show ?thesis
    proof (cases "insert_page db slug title False None None now")
      case (Inl e)
      with None c inv show ?thesis by (simp add: CreatePage_def)
    next
      case (Inr x)
      obtain i tx1 where x: "x = (i, tx1)" by (cases x)
      have ip: "insert_page db slug title False None None now = Inr (i, tx1)"
        using Inr x by simp
      then have i: "i = next_rowid (map ID (pages db)) (pages_seq db)"
        unfolding insert_page_def Let_def by (simp split: if_splits)
      have "\<forall>y \<in> set (map ID (pages db)). y < i"
        unfolding i using next_rowid_fresh by blast
      then have fresh: "i \<notin> set (map ID (pages db))" by blast
      from insert_page_pages [OF ip] obtain p' where
        p': "pages tx1 = pages db @ [p']" "ID p' = i" "Title p' = title" "IsPhantom p' = False"
            "DeletedAt p' = None" "users tx1 = users db" "revisions tx1 = revisions db"
            "pages_fts tx1 = pages_fts db"
        by blast
      from c None ip have
        "(case insert_revision tx1 i content a now of
             Inl e \<Rightarrow> (Inl e, db)
           | Inr tx2 \<Rightarrow>
               (case fts_insert tx2 i title content of
                  Inl e \<Rightarrow> (Inl e, db)
                | Inr tx3 \<Rightarrow> (GetPageByID tx3 i, tx3))) = (res, out)"
        by (simp add: CreatePage_def)
      from CreatePage_tail_form [OF this] show ?thesis
      proof
        assume "out = db" with inv show ?thesis by simp
      next
        assume "\<exists>r. users out = users tx1 \<and> pages out = pages tx1 \<and>
              revisions out = revisions tx1 @ [r] \<and> PageID r = i \<and> Content r = content \<and>
              AuthorID r \<in> set (map UserID (users tx1)) \<and> RevCreatedAt r = now \<and>
              pages_fts out = pages_fts tx1 @ [(i, title, content)] \<and>
              i \<notin> set (map fst (pages_fts tx1)) \<and> i \<in> set (map ID (pages tx1))"
        then obtain r where
          t: "users out = users db" "pages out = pages db @ [p']"
             "revisions out = revisions db @ [r]" "PageID r = i" "Content r = content"
             "AuthorID r \<in> set (map UserID (users db))"
             "pages_fts out = pages_fts db @ [(i, title, content)]"
             "i \<notin> set (map fst (pages_fts db))"
          using p' by auto
        show ?thesis
        proof (rule store_inv_write [OF inv t(1), where G = "\<lambda>p. p" and newp = "[p']" and i = i
              and r = r and title = title and content = content])
          show "pages out = map (\<lambda>p. p) (pages db) @ [p']" using t(2) by simp
          show "\<And>p. ID p = ID p" by simp
          show "\<And>p. ID p \<noteq> i \<Longrightarrow> p = p" by simp
          show "\<And>p. p \<in> set (pages db) \<Longrightarrow> ID p = i \<Longrightarrow>
                 \<not> IsPhantom p \<and> DeletedAt p = None \<and> Title p = title"
            using fresh by force
          show "[p'] = [] \<or> (\<exists>q. [p'] = [q] \<and> ID q = i \<and> i \<notin> set (map ID (pages db)) \<and>
                 \<not> IsPhantom q \<and> DeletedAt q = None \<and> Title q = title)"
            using p' fresh by simp
          show "i \<in> set (map ID (pages out))" using t(2) p'(2) by simp
          show "revisions out = revisions db @ [r]" by (rule t(3))
          show "PageID r = i" by (rule t(4))
          show "Content r = content" by (rule t(5))
          show "AuthorID r \<in> set (map UserID (users db))" by (rule t(6))
          show "\<forall>x \<in> set (revs_of db i). RevCreatedAt x < RevCreatedAt r"
            using revs_of_fresh [OF rf fresh] by simp
          show "index_entry out i = Some (title, content)"
            using t(7) t(8) by (rule index_entry_append_new)
          show "\<And>j. j \<noteq> i \<Longrightarrow> index_entry out j = index_entry db j"
            using index_entry_append_other [OF t(7)] by (simp add: index_entry_def)
          show "set (map fst (pages_fts out)) \<subseteq> insert i (set (map fst (pages_fts db)))"
            using t(7) by auto
        qed
      qed
    qed
  next
    case (Some p)
    from find_Some_mem [of "\<lambda>p. Slug p = slug" "pages db" p] Some
    have pin: "p \<in> set (pages db)" by (simp add: page_by_slug_def)
    show ?thesis
    proof (cases "IsPhantom p")
      case False
      with Some c inv show ?thesis by (simp add: CreatePage_def)
    next
      case True
      with ok Some have live: "DeletedAt p = None" by simp
      define G where "G = (\<lambda>q::Page. if ID q = ID p
                             then q\<lparr>Title := title, IsPhantom := False, UpdatedAt := now\<rparr>
                             else q)"
      define tx1 where "tx1 = update_pages db (\<lambda>q. ID q = ID p)
                            (\<lambda>q. q\<lparr>Title := title, IsPhantom := False, UpdatedAt := now\<rparr>)"
      have t1: "pages tx1 = map G (pages db)" "users tx1 = users db"
        "revisions tx1 = revisions db" "pages_fts tx1 = pages_fts db"
        by (simp_all add: tx1_def update_pages_def G_def)
      from c Some True have
        "(case insert_revision tx1 (ID p) content a now of
             Inl e \<Rightarrow> (Inl e, db)
           | Inr tx2 \<Rightarrow>
               (case fts_insert tx2 (ID p) title content of
                  Inl e \<Rightarrow> (Inl e, db)
                | Inr tx3 \<Rightarrow> (GetPageByID tx3 (ID p), tx3))) = (res, out)"
        by (simp add: CreatePage_def tx1_def)
      from CreatePage_tail_form [OF this] show ?thesis
      proof
        assume "out = db" with inv show ?thesis by simp
      next
        assume "\<exists>r. users out = users tx1 \<and> pages out = pages tx1 \<and>
              revisions out = revisions tx1 @ [r] \<and> PageID r = ID p \<and> Content r = content \<and>
              AuthorID r \<in> set (map UserID (users tx1)) \<and> RevCreatedAt r = now \<and>
              pages_fts out = pages_fts tx1 @ [(ID p, title, content)] \<and>
              ID p \<notin> set (map fst (pages_fts tx1)) \<and> ID p \<in> set (map ID (pages tx1))"
        then obtain r where
          t: "users out = users db" "pages out = map G (pages db)"
             "revisions out = revisions db @ [r]" "PageID r = ID p" "Content r = content"
             "AuthorID r \<in> set (map UserID (users db))"
             "pages_fts out = pages_fts db @ [(ID p, title, content)]"
             "ID p \<notin> set (map fst (pages_fts db))"
          using t1 by auto
        from rs pin True have nr: "revs_of db (ID p) = []" by (simp add: inv_revs_def)
        from k have dist: "distinct (map ID (pages db))" by (simp add: inv_keys_def)
        show ?thesis
        proof (rule store_inv_write [OF inv t(1), where G = G and newp = "[]" and i = "ID p"
              and r = r and title = title and content = content])
          show "pages out = map G (pages db) @ []" using t(2) by simp
          show "\<And>q. ID (G q) = ID q" by (simp add: G_def)
          show "\<And>q. ID q \<noteq> ID p \<Longrightarrow> G q = q" by (simp add: G_def)
          show "\<And>q. q \<in> set (pages db) \<Longrightarrow> ID q = ID p \<Longrightarrow>
                 \<not> IsPhantom (G q) \<and> DeletedAt (G q) = None \<and> Title (G q) = title"
          proof -
            fix q assume "q \<in> set (pages db)" "ID q = ID p"
            with distinct_ID_eq [OF dist _ pin] have "q = p" by blast
            with live show "\<not> IsPhantom (G q) \<and> DeletedAt (G q) = None \<and> Title (G q) = title"
              by (simp add: G_def)
          qed
          show "[] = [] \<or> (\<exists>q. [] = [q] \<and> ID q = ID p \<and> ID p \<notin> set (map ID (pages db)) \<and>
                 \<not> IsPhantom q \<and> DeletedAt q = None \<and> Title q = title)"
            by simp
          have gid: "\<And>q. ID (G q) = ID q" by (simp add: G_def)
          have "map ID (pages out) = map ID (pages db)" by (simp add: t(2) gid)
          moreover have "ID p \<in> ID ` set (pages db)" using pin by (rule imageI)
          ultimately show "ID p \<in> set (map ID (pages out))" by simp
          show "revisions out = revisions db @ [r]" by (rule t(3))
          show "PageID r = ID p" by (rule t(4))
          show "Content r = content" by (rule t(5))
          show "AuthorID r \<in> set (map UserID (users db))" by (rule t(6))
          show "\<forall>x \<in> set (revs_of db (ID p)). RevCreatedAt x < RevCreatedAt r"
            by (simp add: nr)
          show "index_entry out (ID p) = Some (title, content)"
            using t(7) t(8) by (rule index_entry_append_new)
          show "\<And>j. j \<noteq> ID p \<Longrightarrow> index_entry out j = index_entry db j"
            using index_entry_append_other [OF t(7)] by (simp add: index_entry_def)
          show "set (map fst (pages_fts out)) \<subseteq> insert (ID p) (set (map fst (pages_fts db)))"
            using t(7) by auto
        qed
      qed
    qed
  qed
  with c show ?thesis by simp
qed

lemma UpdatePage_store_inv:
  assumes inv: "store_inv db"
    and ok: "op_ok db (OpUpdatePage i title content a now)"
  shows "store_inv (snd (UpdatePage db i title content a now))"
proof -
  define G where "G = (\<lambda>q::Page. if ID q = i then q\<lparr>Title := title, UpdatedAt := now\<rparr> else q)"
  define tx1 where
    "tx1 = update_pages db (\<lambda>p. ID p = i) (\<lambda>p. p\<lparr>Title := title, UpdatedAt := now\<rparr>)"
  have t1: "pages tx1 = map G (pages db)" "users tx1 = users db"
    "revisions tx1 = revisions db" "pages_fts tx1 = pages_fts db"
    by (simp_all add: tx1_def update_pages_def G_def)
  have gid: "\<And>q. ID (G q) = ID q" by (simp add: G_def)
  show ?thesis
  proof (cases "insert_revision tx1 i content a now")
    case (Inl e)
    with inv show ?thesis by (simp add: UpdatePage_def tx1_def Let_def)
  next
    case (Inr tx2)
    from insert_revision_form [OF Inr] obtain r where
      r: "revisions tx2 = revisions tx1 @ [r]" "PageID r = i" "Content r = content"
         "AuthorID r = a" "RevCreatedAt r = now" "a \<in> set (map UserID (users tx1))"
         "i \<in> set (map ID (pages tx1))" "pages tx2 = pages tx1" "users tx2 = users tx1"
         "pages_fts tx2 = pages_fts tx1"
      by blast
    define F where "F = filter (\<lambda>row. fst row \<noteq> i) (pages_fts db)"
    define out where "out = (fts_delete tx2 i)\<lparr>pages_fts := F @ [(i, title, content)]\<rparr>"
    have nk: "i \<notin> set (map fst F)" by (auto simp: F_def)
    have fd: "pages_fts (fts_delete tx2 i) = F"
      by (simp add: fts_delete_def r(10) t1(4) F_def)
    then have "fts_insert (fts_delete tx2 i) i title content = Inr out"
      using nk by (simp add: fts_insert_def out_def)
    with Inr have o: "snd (UpdatePage db i title content a now) = out"
      by (simp add: UpdatePage_def tx1_def Let_def)
    have t: "users out = users db" "pages out = map G (pages db)"
      "revisions out = revisions db @ [r]" "pages_fts out = F @ [(i, title, content)]"
      by (simp_all add: out_def fts_delete_def r t1)
    have "store_inv out"
    proof (rule store_inv_write [OF inv t(1), where G = G and newp = "[]" and i = i
              and r = r and title = title and content = content])
      show "pages out = map G (pages db) @ []" using t(2) by simp
      show "\<And>q. ID (G q) = ID q" by (rule gid)
      show "\<And>q. ID q \<noteq> i \<Longrightarrow> G q = q" by (simp add: G_def)
      show "\<And>q. q \<in> set (pages db) \<Longrightarrow> ID q = i \<Longrightarrow>
                 \<not> IsPhantom (G q) \<and> DeletedAt (G q) = None \<and> Title (G q) = title"
        using ok by (auto simp: G_def list_all_iff)
      show "[] = [] \<or> (\<exists>q. [] = [q] \<and> ID q = i \<and> i \<notin> set (map ID (pages db)) \<and>
                 \<not> IsPhantom q \<and> DeletedAt q = None \<and> Title q = title)"
        by simp
      have "map ID (pages out) = map ID (pages tx1)" by (simp add: t(2) t1(1))
      with r(7) show "i \<in> set (map ID (pages out))" by simp
      show "revisions out = revisions db @ [r]" by (rule t(3))
      show "PageID r = i" by (rule r(2))
      show "Content r = content" by (rule r(3))
      show "AuthorID r \<in> set (map UserID (users db))" using r(4,6) t1(2) by simp
      show "\<forall>x \<in> set (revs_of db i). RevCreatedAt x < RevCreatedAt r"
        using ok by (simp add: list_all_iff r(5))
      show "index_entry out i = Some (title, content)"
        using t(4) nk by (rule index_entry_append_new)
      show "\<And>j. j \<noteq> i \<Longrightarrow> index_entry out j = index_entry db j"
        using index_entry_append_other [OF t(4)]
        by (simp add: index_entry_def F_def map_of_filter_other)
      show "set (map fst (pages_fts out)) \<subseteq> insert i (set (map fst (pages_fts db)))"
        by (auto simp: t(4) F_def)
    qed
    with o show ?thesis by simp
  qed
qed

lemma apply_op_store_inv:
  assumes "tie_rule pick" and "store_inv db" and "op_ok db op"
  shows "store_inv (apply_op pick db op)"
proof (cases op)
  case (OpCreatePage slug title content a now)
  with assms CreatePage_store_inv show ?thesis by simp
next
  case (OpUpdatePage i title content a now)
  with assms UpdatePage_store_inv show ?thesis by simp
next
  case (OpCreatePhantom slug title u pg now)
  with assms CreatePhantom_store_inv show ?thesis by simp
next
  case (OpSoftDeletePage i now)
  with assms SoftDeletePage_store_inv show ?thesis by simp
next
  case (OpRestorePage i now)
  with assms RestorePage_store_inv show ?thesis by simp
qed

lemma run_store_inv:
  assumes "tie_rule pick"
  shows "store_inv db \<Longrightarrow> guarded pick db ops \<Longrightarrow> store_inv (run pick db ops)"
proof (induction ops arbitrary: db)
  case Nil
  then show ?case by (simp add: run_def)
next
  case (Cons op ops)
  from Cons.prems have ok: "op_ok db op" and g: "guarded pick (apply_op pick db op) ops"
    by simp_all
  from apply_op_store_inv [OF assms Cons.prems(1) ok]
  have "store_inv (apply_op pick db op)" .
  from Cons.IH [OF this g] show ?case by (simp add: run_def)
qed

lemma sorted_last_max:
  assumes "sorted_wrt (<) (map f xs)" and "x \<in> set xs" and "f (last xs) \<le> (f x :: nat)"
  shows "x = last xs"
proof -
  from assms(2) obtain ys l where yl: "xs = ys @ [l]"
    by (cases xs rule: rev_cases) auto
  from assms(1) have lt: "\<forall>y \<in> set ys. f y < f l"
    unfolding yl by (simp add: sorted_wrt_append)
  from assms(3) have le: "f l \<le> f x" by (simp add: yl)
  have "x \<notin> set ys"
  proof
    assume "x \<in> set ys"
    with lt have "f x < f l" by blast
    with le show False by simp
  qed
  with assms(2) show ?thesis by (simp add: yl)
qed

lemma revisions_with_author_revs_of:
  "revisions_with_author db i
     = concat (map (\<lambda>r. map (\<lambda>u. r\<lparr>AuthorUsername := Username u\<rparr>)
                        (filter (\<lambda>u. UserID u = AuthorID r) (users db)))
                 (revs_of db i))"
  by (simp add: revisions_with_author_def revs_of_def)

lemma current_revision_is_last:
  assumes tie: "tie_rule pick" and rf: "inv_refs db"
    and so: "sorted_wrt (<) (map RevCreatedAt (revs_of db i))" and ne: "revs_of db i \<noteq> []"
  shows "\<exists>r. GetCurrentRevision pick db i = Inr r \<and> Content r = Content (last (revs_of db i))"
proof -
  let ?J = "revisions_with_author db i"
  let ?l = "last (revs_of db i)"
  have lin: "?l \<in> set (revs_of db i)" using ne by simp
  then have "?l \<in> set (revisions db)" by (simp add: revs_of_def)
  with rf have "AuthorID ?l \<in> set (map UserID (users db))" by (simp add: inv_refs_def)
  then obtain u where u: "u \<in> set (users db)" "UserID u = AuthorID ?l" by auto
  have lj: "?l\<lparr>AuthorUsername := Username u\<rparr> \<in> set ?J"
    unfolding revisions_with_author_revs_of using lin u by auto
  then have jne: "?J \<noteq> []" by auto
  then obtain x where x: "order_desc_limit1 pick ?J = Some x"
    by (simp add: order_desc_limit1_def)
  from order_desc_limit1_Some [OF tie x]
  have xin: "x \<in> set ?J" and mx: "\<forall>r' \<in> set ?J. RevCreatedAt r' \<le> RevCreatedAt x" by auto
  have "\<And>y. y \<in> set ?J \<Longrightarrow>
          \<exists>r \<in> set (revs_of db i). RevCreatedAt y = RevCreatedAt r \<and> Content y = Content r"
    unfolding revisions_with_author_revs_of by fastforce
  from this [OF xin] obtain r where
    r: "r \<in> set (revs_of db i)" "RevCreatedAt x = RevCreatedAt r" "Content x = Content r"
    by blast
  from mx lj have "RevCreatedAt (?l\<lparr>AuthorUsername := Username u\<rparr>) \<le> RevCreatedAt x"
    by (rule bspec)
  with r(2) have "RevCreatedAt ?l \<le> RevCreatedAt r" by simp
  from sorted_last_max [OF so r(1) this] have "r = ?l" .
  with r(3) have "Content x = Content ?l" by simp
  with x show ?thesis by (simp add: GetCurrentRevision_def)
qed

lemma store_inv_fts_synced:
  assumes tie: "tie_rule pick" and inv: "store_inv db"
  shows "fts_synced pick db"
  unfolding fts_synced_def list_all_iff
proof
  fix p assume p: "p \<in> set (pages db)"
  from inv have rf: "inv_refs db" and rs: "inv_revs db" and ix: "inv_index db"
    by (simp_all add: store_inv_def)
  from ix p have e: "index_entry db (ID p) = expected_entry db p" by (simp add: inv_index_def)
  show "index_entry db (ID p) =
          (if IsPhantom p \<or> DeletedAt p \<noteq> None then None
           else (case GetCurrentRevision pick db (ID p) of
                   Inr revision \<Rightarrow> Some (Title p, Content revision)
                 | Inl e \<Rightarrow> None))"
  proof (cases "IsPhantom p \<or> DeletedAt p \<noteq> None")
    case True
    with e show ?thesis by (simp add: expected_entry_def)
  next
    case False
    with rs p have ne: "revs_of db (ID p) \<noteq> []"
      and so: "sorted_wrt (<) (map RevCreatedAt (revs_of db (ID p)))"
      by (auto simp: inv_revs_def)
    from current_revision_is_last [OF tie rf so ne] obtain r where
      "GetCurrentRevision pick db (ID p) = Inr r" "Content r = Content (last (revs_of db (ID p)))"
      by blast
    with e False show ?thesis by (simp add: expected_entry_def)
  qed
qed

lemma UpdatePage_failure_rolls_back:
  "UpdatePage db i title content a now = (Some e, db') \<Longrightarrow> db' = db"
  using UpdatePage_effect [of db i title content a now "Some e" db'] by auto

text \<open>
  Where the index invariant does hold. Starting from a database without pages, after any sequence of
  \<open>CreatePage\<close>, \<open>UpdatePage\<close>, \<open>CreatePhantom\<close>, \<open>SoftDeletePage\<close> and \<open>RestorePage\<close> in which
  every operation stays in its domain (\<open>UpdatePage\<close> on a page that is real and not
  soft-deleted, at a time later than the page's revisions; \<open>RestorePage\<close> on a real page;
  \<open>CreatePage\<close> not over a soft-deleted phantom), the index has an entry for a page exactly
  when the page is neither a phantom nor soft-deleted, and the entry is the page's title with
  the content of its current revision. The same holds from any state that satisfies the
  store invariant. \<open>CreatePage\<close> and \<open>UpdatePage\<close> write page, revision and index entry in one
  transaction: an error leaves the database as it was.
\<close>

theorem index_synced_within_domain:
  "(tie_rule pick \<and> guarded pick (empty_db us) ops \<longrightarrow>
      fts_synced pick (run pick (empty_db us) ops)) \<and>
   (tie_rule pick \<and> store_inv db \<and> guarded pick db ops \<longrightarrow>
      store_inv (run pick db ops) \<and> fts_synced pick (run pick db ops)) \<and>
   (\<forall>e db'. CreatePage db slug title content author now = (Inl e, db') \<longrightarrow> db' = db) \<and>
   (\<forall>e db'. UpdatePage db pageID title content author now = (Some e, db') \<longrightarrow> db' = db)"
proof (intro conjI impI allI)
  assume a: "tie_rule pick \<and> guarded pick (empty_db us) ops"
  then have "store_inv (run pick (empty_db us) ops)"
    using run_store_inv [of pick "empty_db us" ops] store_inv_empty [of us] by blast
  with a show "fts_synced pick (run pick (empty_db us) ops)"
    using store_inv_fts_synced by blast
next
  assume a: "tie_rule pick \<and> store_inv db \<and> guarded pick db ops"
  then show i: "store_inv (run pick db ops)"
    using run_store_inv [of pick db ops] by blast
  with a show "fts_synced pick (run pick db ops)"
    using store_inv_fts_synced by blast
next
  fix e db' assume "CreatePage db slug title content author now = (Inl e, db')"
  then show "db' = db" by (rule CreatePage_failure_rolls_back)
next
  fix e db' assume "UpdatePage db pageID title content author now = (Some e, db')"
  then show "db' = db" by (rule UpdatePage_failure_rolls_back)
qed

lemma run_ops_in_domain:
  "run first_row (empty_db demo_users) ops_in_domain =
     \<lparr>users = demo_users,
      pages = [\<lparr>ID = 1, Slug = gostr ''a'', Title = gostr ''A2'', IsPhantom = False,
                FirstCitedByUserID = None, FirstCitedInPageID = None,
                DeletedAt = None, CreatedAt = 10, UpdatedAt = 30\<rparr>,
               \<lparr>ID = 2, Slug = gostr ''b'', Title = gostr ''B'', IsPhantom = False,
                FirstCitedByUserID = Some 1, FirstCitedInPageID = Some 1,
                DeletedAt = Some 50, CreatedAt = 11, UpdatedAt = 50\<rparr>],
      revisions = [\<lparr>RevID = 1, PageID = 1, Content = gostr ''x'', AuthorID = 1,
                    RevCreatedAt = 10, AuthorUsername = []\<rparr>,
                   \<lparr>RevID = 2, PageID = 1, Content = gostr ''y'', AuthorID = 2,
                    RevCreatedAt = 30, AuthorUsername = []\<rparr>,
                   \<lparr>RevID = 3, PageID = 2, Content = gostr ''text'', AuthorID = 2,
                    RevCreatedAt = 40, AuthorUsername = []\<rparr>],
      pages_fts = [(1, gostr ''A2'', gostr ''y'')], pages_seq = 2, revisions_seq = 3\<rparr>"
  by (simp add: ops_in_domain_def demo_users_def store_defs gostr_def)

lemma guarded_ops_in_domain: "guarded first_row (empty_db demo_users) ops_in_domain"
  by (simp add: ops_in_domain_def demo_users_def store_defs revs_of_def gostr_def)

theorem index_synced_within_domain_witness:
  "tie_rule first_row \<and> guarded first_row (empty_db demo_users) ops_in_domain \<and>
   fts_synced first_row (run first_row (empty_db demo_users) ops_in_domain) \<and>
   index_entry (run first_row (empty_db demo_users) ops_in_domain) 1
     = Some (gostr ''A2'', gostr ''y'') \<and>
   index_entry (run first_row (empty_db demo_users) ops_in_domain) 2 = None \<and>
   UpdatePage db_a 7 (gostr ''T'') (gostr ''t'') 1 50 = (Some ErrConstraint, db_a)"
proof -
  have t: "tie_rule first_row" by (simp add: tie_rule_def first_row_def)
  note g = guarded_ops_in_domain
  have f: "fst (UpdatePage db_a 7 (gostr ''T'') (gostr ''t'') 1 50) = Some ErrConstraint"
    by (simp add: db_a_eq demo_users_def store_defs gostr_def)
  note T = index_synced_within_domain
  from T [of first_row demo_users ops_in_domain db_a] t g
  have 1: "fts_synced first_row (run first_row (empty_db demo_users) ops_in_domain)"
    by blast
  have 2: "index_entry (run first_row (empty_db demo_users) ops_in_domain) 1
     = Some (gostr ''A2'', gostr ''y'')"
    "index_entry (run first_row (empty_db demo_users) ops_in_domain) 2 = None"
    by (simp_all add: run_ops_in_domain index_entry_def)
  from T [where db = db_a and pageID = 7 and title = "gostr ''T''" and content = "gostr ''t''"
      and author = 1 and now = 50] f
  have 3: "UpdatePage db_a 7 (gostr ''T'') (gostr ''t'') 1 50 = (Some ErrConstraint, db_a)"
    by (metis (no_types, lifting) prod.collapse)
  from t g 1 2 3 show ?thesis by blast
qed

end
